theory Spec2Isabelle
  imports Main
begin

section \<open>The anime proxy: cache, request queue and rate-limited worker\<close>

text \<open>
  The server keeps four pieces of module-level state: the \<open>cache\<close> map, the timestamp
  \<open>lastRequestTime\<close>, the \<open>queue\<close> array and the flag \<open>isProcessingQueue\<close>.
  \<open>proxyRequest\<close> and \<open>processQueue\<close> are async functions: JavaScript runs each of them
  without interruption up to its next \<open>await\<close>, and resumes it when the awaited timer
  fires or the awaited HTTP call settles. The model follows that: a suspended async
  function is a \<^emph>\<open>task\<close> (its await point and the locals it still needs), and one
  event of the event loop (an incoming request, a timer, an upstream reply) runs one
  uninterrupted segment of code. Every \<open>Date.now()\<close> of a segment reads the time of its
  event.
\<close>

subsection \<open>Data\<close>

type_synonym endpoint = string
type_synonym payload = string

definition CACHE_DURATION :: int where
  "CACHE_DURATION = 5 * 60 * 1000"

definition RATE_LIMIT_DELAY :: int where
  "RATE_LIMIT_DELAY = 1000"

text \<open>The value stored by \<open>cache.set(endpoint, {data, timestamp})\<close>.\<close>

record cache_entry =
  data :: payload
  timestamp :: int

text \<open>
  A queue entry \<open>{endpoint, res, resolve}\<close>. The Express response object \<open>res\<close> is
  identified by a number; \<open>resolve\<close> settles the promise the same \<open>proxyRequest\<close> call
  awaits, so it is identified by the same number.
\<close>

record item =
  endpoint :: endpoint
  res :: nat

text \<open>
  How \<open>axios.get\<close> settles: it resolves with \<open>{status, data}\<close>, or rejects with an
  error that has a \<open>message\<close> and, when the upstream answered, \<open>error.response.status\<close>
  (absent on a timeout or a network error).
\<close>

datatype axios_result =
  Resolved nat payload
| Rejected string "nat option"

text \<open>What a handler sends to its client: \<open>res.status(n).json(body)\<close>.\<close>

datatype body =
  Json payload
| Failure string string

record response =
  status :: nat
  body :: body

text \<open>
  The URL of an upstream call. \<open>Jikan e\<close> is \<open>ANIME_API_URL\<close> followed by \<open>e\<close>; the other
  three are the calls to \<open>GOGOANIME_API_URL\<close>: the title search (the handler cleans and
  URI-encodes the title; the call is identified here by the title it is made for), the
  episode sources \<open>/watch/<id>-episode-<n>\<close> and the episode list \<open>/info/<id>\<close>.
\<close>

datatype target =
  Jikan endpoint
| GogoSearch string
| GogoWatch string int
| GogoInfo string

text \<open>Who issued a call: the queue worker for the item of a response object, or a
  route handler calling \<open>axios.get\<close> itself.\<close>

datatype origin =
  Worker nat
| Direct nat

text \<open>
  The observable trace, oldest entry first: a \<open>queue.push\<close> of \<open>proxyRequest\<close>, the start
  of an upstream call, the settling of a worker call, the settling of a handler call.
\<close>

datatype obs =
  Enqueued int nat endpoint
| Started int origin target
| Finished int nat endpoint axios_result
| DirectFinished int nat target

text \<open>
  The two streaming handlers make three upstream calls in a row; \<open>stage\<close> says which
  one is awaited. \<open>/api/watch/:id/:episode\<close> keeps the episode number,
  \<open>/api/episodes/:id\<close> has none.
\<close>

datatype stage = SMal | SSearch | SFinal

datatype hkind = WatchK int | EpisodesK

text \<open>
  A suspended async function. The worker awaits the gate timer (line 77), the upstream
  call of the item it shifted (line 83), or the back-off timer after a 429 (line 116). A
  timer is kept with the time it is set for: \<open>Date.now()\<close> when \<open>setTimeout\<close> is called
  plus the delay passed to it. A streaming handler awaits one of its calls.
\<close>

datatype pc =
  WGate int
| WUpstream item
| WBackoff int
| Handler stage hkind nat target

text \<open>
  The state of the server: the four module-level variables; the suspended tasks, each
  with the number its timer or call is known by, and the next free number; the time of
  the latest event; and what has been observed so far: the responses sent, by response
  object, the values the \<open>resolve\<close> callbacks were called with (\<open>None\<close> for \<open>null\<close>), and
  the trace. \<open>proxyRequest\<close> does nothing more once its promise is resolved, so that
  continuation is not a task.
\<close>

record state =
  cache :: "endpoint \<rightharpoonup> cache_entry"
  lastRequestTime :: int
  queue :: "item list"
  isProcessingQueue :: bool
  tasks :: "(nat \<times> pc) list"
  next_tid :: nat
  clock :: int
  responses :: "(nat \<times> response) list"
  resolved :: "(nat \<times> payload option) list"
  trace :: "obs list"

text \<open>
  The state at start-up: \<open>lastRequestTime = 0\<close>, an empty cache and queue, the flag
  unset. The clock starts at 0 and events may come at any later time.
\<close>

definition init_state :: state where
  "init_state = \<lparr> cache = Map.empty, lastRequestTime = 0, queue = [],
     isProcessingQueue = False, tasks = [], next_tid = 0, clock = 0,
     responses = [], resolved = [], trace = [] \<rparr>"

subsection \<open>The queue worker\<close>

text \<open>
  \<open>res.json\<close> and \<open>res.status(n).json\<close> on a response object, taken not to throw;
  suspending a task under its number; adding to the trace.
\<close>

definition respond :: "nat \<Rightarrow> nat \<Rightarrow> body \<Rightarrow> state \<Rightarrow> state" where
  "respond rid st b s = s\<lparr>responses := responses s @ [(rid, \<lparr>status = st, body = b\<rparr>)]\<rparr>"

definition suspend :: "nat \<Rightarrow> pc \<Rightarrow> state \<Rightarrow> state" where
  "suspend tid p s = s\<lparr>tasks := tasks s @ [(tid, p)]\<rparr>"

definition observe :: "obs \<Rightarrow> state \<Rightarrow> state" where
  "observe ob s = s\<lparr>trace := trace s @ [ob]\<rparr>"

text \<open>
  Lines 80 to 89: \<open>queue.shift()\<close>, then \<open>axios.get\<close> for the shifted item. On an empty
  queue \<open>shift\<close> returns \<open>undefined\<close> and the destructuring throws outside the \<open>try\<close>:
  the worker ends there and the flag stays set.
\<close>

definition worker_issue :: "int \<Rightarrow> nat \<Rightarrow> state \<Rightarrow> state" where
  "worker_issue now tid s =
     (case queue s of
        [] \<Rightarrow> s
      | it # rest \<Rightarrow>
          suspend tid (WUpstream it)
            (observe (Started now (Worker (res it)) (Jikan (endpoint it)))
              (s\<lparr>queue := rest\<rparr>)))"

text \<open>
  The head of the \<open>while\<close> loop, lines 72 to 78, and the exit at line 128: leave when
  the queue is empty, sleep when the last request is less than \<open>RATE_LIMIT_DELAY\<close> old,
  and issue the next call otherwise.
\<close>

definition worker_loop :: "int \<Rightarrow> nat \<Rightarrow> state \<Rightarrow> state" where
  "worker_loop now tid s =
     (if queue s = [] then s\<lparr>isProcessingQueue := False\<rparr>
      else
        let timeSinceLastRequest = now - lastRequestTime s in
        if timeSinceLastRequest < RATE_LIMIT_DELAY
        then suspend tid (WGate (now + (RATE_LIMIT_DELAY - timeSinceLastRequest))) s
        else worker_issue now tid s)"

text \<open>Lines 67 to 70: the guard, then the first run of the loop as a new task.\<close>

definition processQueue :: "int \<Rightarrow> state \<Rightarrow> state" where
  "processQueue now s =
     (if isProcessingQueue s \<or> queue s = [] then s
      else worker_loop now (next_tid s)
             (s\<lparr>isProcessingQueue := True, next_tid := Suc (next_tid s)\<rparr>))"

text \<open>\<open>error.response?.status || 500\<close>: a missing status, and the falsy 0, give 500.\<close>

definition status_or_500 :: "nat option \<Rightarrow> nat" where
  "status_or_500 st = (case st of None \<Rightarrow> 500 | Some n \<Rightarrow> if n = 0 then 500 else n)"

text \<open>
  Lines 91 to 125, the code after \<open>await axios.get\<close> for the item \<open>it\<close>: the success
  path, the 429 path (\<open>unshift\<close>, sleep, \<open>continue\<close>) and the other failures; the two
  paths that do not sleep run on into the head of the loop.
\<close>

definition worker_reply :: "int \<Rightarrow> nat \<Rightarrow> item \<Rightarrow> axios_result \<Rightarrow> state \<Rightarrow> state" where
  "worker_reply now tid it r s0 =
     (let s = observe (Finished now (res it) (endpoint it) r) s0 in
      case r of
        Resolved st d \<Rightarrow>
          worker_loop now tid
            (respond (res it) 200 (Json d)
              (s\<lparr>lastRequestTime := now,
                 cache := (cache s)(endpoint it \<mapsto> \<lparr>data = d, timestamp = now\<rparr>),
                 resolved := resolved s @ [(res it, Some d)]\<rparr>))
      | Rejected msg st \<Rightarrow>
          if st = Some 429
          then suspend tid (WBackoff (now + RATE_LIMIT_DELAY)) (s\<lparr>queue := it # queue s\<rparr>)
          else
            worker_loop now tid
              ((respond (res it) (status_or_500 st) (Failure ''Failed to fetch anime data'' msg) s)
                 \<lparr>resolved := resolved s @ [(res it, None)]\<rparr>))"

subsection \<open>The proxy middleware\<close>

text \<open>
  \<open>proxyRequest\<close>, lines 132 to 147: a cache entry younger than \<open>CACHE_DURATION\<close> is
  sent back at once; otherwise the request is pushed on the queue and \<open>processQueue\<close>
  is called.
\<close>

definition enqueue :: "int \<Rightarrow> nat \<Rightarrow> endpoint \<Rightarrow> state \<Rightarrow> state" where
  "enqueue now rid ep s =
     processQueue now
       (observe (Enqueued now rid ep) (s\<lparr>queue := queue s @ [\<lparr>endpoint = ep, res = rid\<rparr>]\<rparr>))"

definition proxyRequest :: "int \<Rightarrow> nat \<Rightarrow> endpoint \<Rightarrow> state \<Rightarrow> state" where
  "proxyRequest now rid ep s =
     (case cache s ep of
        Some cached \<Rightarrow>
          if now - timestamp cached < CACHE_DURATION
          then respond rid 200 (Json (data cached)) s
          else enqueue now rid ep s
      | None \<Rightarrow> enqueue now rid ep s)"

subsection \<open>The streaming handlers\<close>

text \<open>
  \<open>/api/watch/:id/:episode\<close> and \<open>/api/episodes/:id\<close> call \<open>axios.get\<close> themselves:
  first \<open>ANIME_API_URL/anime/<id>/full\<close>, then the title search, then the episode sources
  or the episode list. Every exception of a handler ends in its \<open>catch\<close>, which answers
  500. What a handler reads out of a reply body is given by the reply event: \<open>Got x\<close>
  when the call resolved and the handler found the value \<open>x\<close> it goes on with (the
  title, the id of the first search result, the body it sends), \<open>Bad m\<close> when the call
  was rejected or the handler threw on the body, with the error's message.
\<close>

datatype hreply = Got string | Bad string

text \<open>\<open>parseInt(req.params.episode) || 1\<close>, the parsed number given as \<open>None\<close> for NaN.\<close>

definition episode_or_1 :: "int option \<Rightarrow> int" where
  "episode_or_1 p = (case p of None \<Rightarrow> 1 | Some n \<Rightarrow> if n = 0 then 1 else n)"

definition direct_call :: "int \<Rightarrow> stage \<Rightarrow> hkind \<Rightarrow> nat \<Rightarrow> target \<Rightarrow> nat \<Rightarrow> state \<Rightarrow> state" where
  "direct_call now sg k rid tg tid s =
     suspend tid (Handler sg k rid tg) (observe (Started now (Direct rid) tg) s)"

definition handler_start :: "int \<Rightarrow> hkind \<Rightarrow> nat \<Rightarrow> string \<Rightarrow> state \<Rightarrow> state" where
  "handler_start now k rid anime_id s =
     direct_call now SMal k rid (Jikan (''/anime/'' @ anime_id @ ''/full'')) (next_tid s)
       (s\<lparr>next_tid := Suc (next_tid s)\<rparr>)"

definition failure_title :: "hkind \<Rightarrow> string" where
  "failure_title k =
     (case k of WatchK e \<Rightarrow> ''Failed to fetch video'' | EpisodesK \<Rightarrow> ''Failed to fetch episodes'')"

definition handler_reply ::
  "int \<Rightarrow> nat \<Rightarrow> stage \<Rightarrow> hkind \<Rightarrow> nat \<Rightarrow> target \<Rightarrow> hreply \<Rightarrow> state \<Rightarrow> state" where
  "handler_reply now tid sg k rid tg h s0 =
     (let s = observe (DirectFinished now rid tg) s0 in
      case h of
        Bad m \<Rightarrow> respond rid 500 (Failure (failure_title k) m) s
      | Got x \<Rightarrow>
          (case sg of
             SMal \<Rightarrow> direct_call now SSearch k rid (GogoSearch x) tid s
           | SSearch \<Rightarrow>
               direct_call now SFinal k rid
                 (case k of WatchK e \<Rightarrow> GogoWatch x e | EpisodesK \<Rightarrow> GogoInfo x) tid s
           | SFinal \<Rightarrow> respond rid 200 (Json x) s))"

subsection \<open>The event loop\<close>

datatype event =
  Request nat endpoint
| Watch nat string "int option"
| Episodes nat string
| TimerFired nat
| UpstreamReply nat axios_result
| HandlerReply nat hreply

definition remove_task :: "nat \<Rightarrow> state \<Rightarrow> state" where
  "remove_task tid s = s\<lparr>tasks := filter (\<lambda>x. fst x \<noteq> tid) (tasks s)\<rparr>"

text \<open>
  One event at time \<open>now\<close>, the reading of \<open>Date.now()\<close> in its segment. \<open>None\<close> means
  the event cannot happen in this state: a timer or a reply belongs to a task that awaits
  it, and \<open>Date.now()\<close> is taken not to run backwards from one event to the next. A timer
  may fire at any such time, before or after the time it was set for: \<open>setTimeout\<close>
  promises nothing on the \<open>Date.now()\<close> clock, and the worker does not read the clock
  again when it wakes (lines 76 to 80, lines 116 and 117).
\<close>

definition step :: "int \<Rightarrow> event \<Rightarrow> state \<Rightarrow> state option" where
  "step now ev s =
     (if now < clock s then None
      else
        let s0 = s\<lparr>clock := now\<rparr> in
        case ev of
          Request rid ep \<Rightarrow> Some (proxyRequest now rid ep s0)
        | Watch rid anime_id p \<Rightarrow> Some (handler_start now (WatchK (episode_or_1 p)) rid anime_id s0)
        | Episodes rid anime_id \<Rightarrow> Some (handler_start now EpisodesK rid anime_id s0)
        | TimerFired tid \<Rightarrow>
            (case map_of (tasks s) tid of
               Some (WGate due) \<Rightarrow> Some (worker_issue now tid (remove_task tid s0))
             | Some (WBackoff due) \<Rightarrow> Some (worker_loop now tid (remove_task tid s0))
             | _ \<Rightarrow> None)
        | UpstreamReply tid r \<Rightarrow>
            (case map_of (tasks s) tid of
               Some (WUpstream it) \<Rightarrow> Some (worker_reply now tid it r (remove_task tid s0))
             | _ \<Rightarrow> None)
        | HandlerReply tid h \<Rightarrow>
            (case map_of (tasks s) tid of
               Some (Handler sg k rid tg) \<Rightarrow>
                 Some (handler_reply now tid sg k rid tg h (remove_task tid s0))
             | _ \<Rightarrow> None))"

fun run :: "(int \<times> event) list \<Rightarrow> state \<Rightarrow> state option" where
  "run [] s = Some s"
| "run ((now, ev) # evs) s =
     (case step now ev s of None \<Rightarrow> None | Some s' \<Rightarrow> run evs s')"

subsection \<open>Calls in flight\<close>

fun is_worker :: "pc \<Rightarrow> bool" where
  "is_worker (Handler sg k rid tg) = False"
| "is_worker p = True"

fun awaits_upstream :: "pc \<Rightarrow> bool" where
  "awaits_upstream (WGate due) = False"
| "awaits_upstream (WBackoff due) = False"
| "awaits_upstream p = True"

definition worker_tasks :: "state \<Rightarrow> (nat \<times> pc) list" where
  "worker_tasks s = filter (\<lambda>x. is_worker (snd x)) (tasks s)"

definition in_flight :: "state \<Rightarrow> (nat \<times> pc) list" where
  "in_flight s = filter (\<lambda>x. awaits_upstream (snd x)) (tasks s)"

definition worker_in_flight :: "state \<Rightarrow> (nat \<times> pc) list" where
  "worker_in_flight s = filter (\<lambda>x. is_worker (snd x) \<and> awaits_upstream (snd x)) (tasks s)"

subsection \<open>Well-formed states\<close>

text \<open>
  What holds of the worker in every state the server can reach: there is a worker task
  exactly when \<open>isProcessingQueue\<close> is set, there is never more than one, with no
  worker the queue is empty, and a worker asleep at the gate has a non-empty queue and a
  timer set for no earlier than \<open>RATE_LIMIT_DELAY\<close> after \<open>lastRequestTime\<close>.
\<close>

fun worker_pc_ok :: "item list \<Rightarrow> int \<Rightarrow> pc \<Rightarrow> bool" where
  "worker_pc_ok q lrt (WGate due) = (q \<noteq> [] \<and> lrt + RATE_LIMIT_DELAY \<le> due)"
| "worker_pc_ok q lrt p = True"

fun worker_ok :: "bool \<Rightarrow> item list \<Rightarrow> int \<Rightarrow> (nat \<times> pc) list \<Rightarrow> bool" where
  "worker_ok flag q lrt [] = (\<not> flag \<and> q = [])"
| "worker_ok flag q lrt [w] = (flag \<and> worker_pc_ok q lrt (snd w))"
| "worker_ok flag q lrt ws = False"

text \<open>Task numbers are unique and below \<open>next_tid\<close>; \<open>lastRequestTime\<close> is never in the future.\<close>

definition wf :: "state \<Rightarrow> bool" where
  "wf s \<longleftrightarrow>
     lastRequestTime s \<le> clock s \<and>
     distinct (map fst (tasks s)) \<and>
     (\<forall>x \<in> set (tasks s). fst x < next_tid s) \<and>
     worker_ok (isProcessingQueue s) (queue s) (lastRequestTime s) (worker_tasks s)"

text \<open>The state in which the worker task \<open>tid\<close> runs a segment: it is off the task list.\<close>

definition running :: "nat \<Rightarrow> state \<Rightarrow> bool" where
  "running tid s \<longleftrightarrow>
     lastRequestTime s \<le> clock s \<and>
     distinct (map fst (tasks s)) \<and>
     (\<forall>x \<in> set (tasks s). fst x < next_tid s) \<and>
     tid < next_tid s \<and> tid \<notin> fst ` set (tasks s) \<and>
     worker_tasks s = [] \<and> isProcessingQueue s"


subsection \<open>Kinds of events\<close>

text \<open>The requests to the two streaming routes.\<close>

fun streaming_request :: "event \<Rightarrow> bool" where
  "streaming_request (Watch rid a p) = True"
| "streaming_request (Episodes rid a) = True"
| "streaming_request ev = False"

text \<open>The events that run code of a streaming handler.\<close>

fun streaming_event :: "event \<Rightarrow> bool" where
  "streaming_event (Watch rid a p) = True"
| "streaming_event (Episodes rid a) = True"
| "streaming_event (HandlerReply tid h) = True"
| "streaming_event ev = False"

text \<open>The trace entries of calls that a handler issues itself.\<close>

fun direct_obs :: "obs \<Rightarrow> bool" where
  "direct_obs (Started t (Direct rid) tg) = True"
| "direct_obs (DirectFinished t rid tg) = True"
| "direct_obs ob = False"

subsection \<open>The cache and the trace\<close>

text \<open>
  The most recent successful worker call for an endpoint, read off the trace: its time
  and the body it returned. \<open>cache_agrees\<close> says that the cache holds, for every
  endpoint, exactly that call's body and time.
\<close>

fun success_of :: "endpoint \<Rightarrow> obs \<Rightarrow> (int \<times> payload) option" where
  "success_of K (Finished t rid ep (Resolved st d)) = (if ep = K then Some (t, d) else None)"
| "success_of K ob = None"

fun last_success :: "endpoint \<Rightarrow> obs list \<Rightarrow> (int \<times> payload) option" where
  "last_success K [] = None"
| "last_success K (ob # obs) =
     (case last_success K obs of Some r \<Rightarrow> Some r | None \<Rightarrow> success_of K ob)"

definition entry_of :: "int \<times> payload \<Rightarrow> cache_entry" where
  "entry_of r = \<lparr>data = snd r, timestamp = fst r\<rparr>"

definition cache_agrees :: "state \<Rightarrow> bool" where
  "cache_agrees s \<longleftrightarrow> (\<forall>K. cache s K = map_option entry_of (last_success K (trace s)))"

text \<open>
  Every success in the trace is no later than the most recent success for its endpoint,
  and that one is not in the future.
\<close>

definition successes_bounded :: "state \<Rightarrow> bool" where
  "successes_bounded s \<longleftrightarrow>
     (\<forall>ob \<in> set (trace s). \<forall>K t d. success_of K ob = Some (t, d) \<longrightarrow>
        (\<exists>t1 d1. last_success K (trace s) = Some (t1, d1) \<and> t \<le> t1 \<and> t1 \<le> clock s))"

subsection \<open>Queued requests and their calls\<close>




subsection \<open>Calls for one endpoint\<close>

text \<open>
  The calls in a trace that go to \<open>ANIME_API_URL\<close> for the endpoint \<open>K\<close>, the worker
  tasks that await such a call, a cache entry for \<open>K\<close> that \<open>proxyRequest\<close> would
  serve at time \<open>now\<close>, and the scenario of three requests for \<open>K\<close> arriving before the
  first answer, each call answered 100 ms after it is made.
\<close>

fun call_for :: "endpoint \<Rightarrow> obs \<Rightarrow> bool" where
  "call_for K (Started t og (Jikan e)) = (e = K)"
| "call_for K ob = False"

fun awaits_call_for :: "endpoint \<Rightarrow> pc \<Rightarrow> bool" where
  "awaits_call_for K (WUpstream it) = (endpoint it = K)"
| "awaits_call_for K p = False"

definition worker_calls_for :: "endpoint \<Rightarrow> state \<Rightarrow> (nat \<times> pc) list" where
  "worker_calls_for K s = filter (\<lambda>x. awaits_call_for K (snd x)) (tasks s)"

definition fresh :: "state \<Rightarrow> endpoint \<Rightarrow> int \<Rightarrow> bool" where
  "fresh s K now =
     (case cache s K of None \<Rightarrow> False | Some cached \<Rightarrow> now - timestamp cached < CACHE_DURATION)"

definition three_fetches :: "endpoint \<Rightarrow> payload \<Rightarrow> payload \<Rightarrow> payload \<Rightarrow> (int \<times> event) list" where
  "three_fetches K d1 d2 d3 =
     [(10000, Request 1 K), (10100, Request 2 K), (10200, Request 3 K),
      (10300, UpstreamReply 0 (Resolved 200 d1)), (11300, TimerFired 0),
      (11400, UpstreamReply 0 (Resolved 200 d2)), (12400, TimerFired 0),
      (12500, UpstreamReply 0 (Resolved 200 d3))]"

subsection \<open>The worker's calls in the trace\<close>

text \<open>
  The entries of the trace that are starts and ends of the worker's upstream calls, and
  the scenario of a queue with a request for \<open>A\<close> and one for \<open>B\<close>, where the call for
  \<open>A\<close> is answered 429 once and succeeds when retried.
\<close>

fun worker_obs :: "obs \<Rightarrow> bool" where
  "worker_obs (Started t (Worker rid) tg) = True"
| "worker_obs (Finished t rid ep r) = True"
| "worker_obs ob = False"

definition throttled_once ::
  "endpoint \<Rightarrow> endpoint \<Rightarrow> string \<Rightarrow> payload \<Rightarrow> (int \<times> event) list" where
  "throttled_once A B m d =
     [(10000, Request 1 A), (10010, Request 2 B),
      (10300, UpstreamReply 0 (Rejected m (Some 429))), (11300, TimerFired 0),
      (11600, UpstreamReply 0 (Resolved 200 d)), (12600, TimerFired 0)]"

subsection \<open>Spacing of the worker's calls\<close>

text \<open>
  \<open>spacing_from\<close> gives the time a worker call ended when it ended in success or with
  status 429, \<open>worker_start\<close> the time a worker call started. A trace is \<open>spaced g\<close> when
  every worker call that starts after such an end starts at least \<open>g\<close> later.
  \<open>ends_ok g\<close> is what the state remembers of each such end: it is no later than
  \<open>lastRequestTime\<close>, or \<open>g\<close> has passed since, or the worker sleeps in a back-off set
  to last \<open>RATE_LIMIT_DELAY\<close> from it.
\<close>

fun spacing_from :: "obs \<Rightarrow> int option" where
  "spacing_from (Finished t rid ep (Resolved st d)) = Some t"
| "spacing_from (Finished t rid ep (Rejected m st)) = (if st = Some 429 then Some t else None)"
| "spacing_from ob = None"

fun worker_start :: "obs \<Rightarrow> int option" where
  "worker_start (Started t (Worker rid) tg) = Some t"
| "worker_start ob = None"

definition starts_after :: "int \<Rightarrow> int \<Rightarrow> obs \<Rightarrow> bool" where
  "starts_after g t ob = (case worker_start ob of None \<Rightarrow> True | Some t' \<Rightarrow> t + g \<le> t')"

fun spaced :: "int \<Rightarrow> obs list \<Rightarrow> bool" where
  "spaced g [] = True"
| "spaced g (ob # obs) =
     ((case spacing_from ob of None \<Rightarrow> True | Some t \<Rightarrow> list_all (starts_after g t) obs) \<and>
      spaced g obs)"

definition end_ok :: "int \<Rightarrow> int \<Rightarrow> int \<Rightarrow> (nat \<times> pc) list \<Rightarrow> obs \<Rightarrow> bool" where
  "end_ok g lrt clk ts ob =
     (case spacing_from ob of
        None \<Rightarrow> True
      | Some t \<Rightarrow>
          t \<le> lrt \<or> t + g \<le> clk \<or>
          (\<exists>tid due. (tid, WBackoff due) \<in> set ts \<and> t + RATE_LIMIT_DELAY \<le> due))"

definition ends_ok :: "int \<Rightarrow> state \<Rightarrow> bool" where
  "ends_ok g s \<longleftrightarrow>
     (\<forall>ob \<in> set (trace s). end_ok g (lastRequestTime s) (clock s) (tasks s) ob)"

definition ends_before :: "int \<Rightarrow> int \<Rightarrow> obs list \<Rightarrow> bool" where
  "ends_before g now tr \<longleftrightarrow>
     (\<forall>ob \<in> set tr. case spacing_from ob of None \<Rightarrow> True | Some t \<Rightarrow> t + g \<le> now)"

definition paced :: "int \<Rightarrow> state \<Rightarrow> bool" where
  "paced g s \<longleftrightarrow> ends_ok g s \<and> spaced g (trace s)"

text \<open>
  The time a timer is set for; \<open>not_early e\<close> says of an event that, if a timer fires in
  it, it fires no more than \<open>e\<close> before that time on the \<open>Date.now()\<close> clock, and
  \<open>timers_within e\<close> says so of every event of a run.
\<close>

fun due_of :: "pc \<Rightarrow> int option" where
  "due_of (WGate due) = Some due"
| "due_of (WBackoff due) = Some due"
| "due_of p = None"

definition not_early :: "int \<Rightarrow> int \<Rightarrow> event \<Rightarrow> state \<Rightarrow> bool" where
  "not_early e now ev s =
     (case ev of
        TimerFired tid \<Rightarrow>
          (case map_of (tasks s) tid of
             None \<Rightarrow> True
           | Some p \<Rightarrow> (case due_of p of None \<Rightarrow> True | Some due \<Rightarrow> due - e \<le> now))
      | _ \<Rightarrow> True)"

fun timers_within :: "int \<Rightarrow> (int \<times> event) list \<Rightarrow> state \<Rightarrow> bool" where
  "timers_within e [] s = True"
| "timers_within e ((now, ev) # evs) s =
     (not_early e now ev s \<and>
      (case step now ev s of None \<Rightarrow> True | Some s' \<Rightarrow> timers_within e evs s'))"

section \<open>Properties\<close>

subsection \<open>Reachable states are well-formed\<close>

lemma worker_ok_False: "worker_ok False q lrt ws \<longleftrightarrow> ws = [] \<and> q = []"
  by (cases "(False, q, lrt, ws)" rule: worker_ok.cases) auto

lemma worker_ok_True:
  "worker_ok True q lrt ws \<longleftrightarrow> (\<exists>w. ws = [w] \<and> worker_pc_ok q lrt (snd w))"
  by (cases "(True, q, lrt, ws)" rule: worker_ok.cases) auto

lemma wf_frame [simp]:
  "wf (s\<lparr>trace := tr\<rparr>) = wf s"
  "wf (s\<lparr>responses := rs\<rparr>) = wf s"
  "wf (s\<lparr>resolved := rv\<rparr>) = wf s"
  "wf (s\<lparr>cache := c\<rparr>) = wf s"
  by (simp_all add: wf_def worker_tasks_def)

lemma wf_init: "wf init_state"
  by (simp add: wf_def init_state_def worker_tasks_def)

lemma wf_worker_issue:
  "running tid s \<Longrightarrow> queue s \<noteq> [] \<Longrightarrow> wf (worker_issue now tid s)"
  by (cases "queue s")
     (auto simp: wf_def running_def worker_issue_def suspend_def observe_def worker_tasks_def)

lemma wf_worker_loop:
  "running tid s \<Longrightarrow> clock s = now \<Longrightarrow> wf (worker_loop now tid s)"
proof (cases "queue s = []")
  case True
  assume "running tid s" "clock s = now"
  with True show ?thesis
    by (simp add: worker_loop_def wf_def running_def worker_tasks_def)
next
  case False
  assume r: "running tid s" and c: "clock s = now"
  show ?thesis
  proof (cases "now - lastRequestTime s < RATE_LIMIT_DELAY")
    case True
    with False r c show ?thesis
      by (auto simp: worker_loop_def wf_def running_def worker_tasks_def suspend_def)
  next
    case f: False
    with False r show ?thesis
      by (simp add: worker_loop_def wf_worker_issue)
  qed
qed

lemma wf_processQueue:
  "wf s \<Longrightarrow> clock s = now \<Longrightarrow> wf (processQueue now s)"
  unfolding processQueue_def
  apply (cases "isProcessingQueue s \<or> queue s = []")
   apply simp
  apply simp
  apply (rule wf_worker_loop)
   apply (auto simp: wf_def running_def worker_tasks_def worker_ok_False)
  done


lemma wf_respond [simp]: "wf (respond rid st b s) = wf s"
  by (simp add: wf_def respond_def worker_tasks_def)

lemma wf_observe [simp]: "wf (observe ob s) = wf s"
  by (simp add: wf_def observe_def worker_tasks_def)

lemma worker_ok_push:
  "worker_ok True q lrt ws \<Longrightarrow> worker_ok True (q @ [x]) lrt ws"
  by (induction True q lrt ws rule: worker_ok.induct) (auto elim!: worker_pc_ok.elims)

lemma wf_push:
  "wf s \<Longrightarrow> isProcessingQueue s \<Longrightarrow> wf (s\<lparr>queue := queue s @ [x]\<rparr>)"
  by (simp add: wf_def worker_tasks_def worker_ok_push)

lemma wf_proxyRequest:
  "wf s \<Longrightarrow> clock s = now \<Longrightarrow> wf (proxyRequest now rid ep s)"
proof -
  assume w: "wf s" and c: "clock s = now"
  let ?x = "\<lparr>endpoint = ep, res = rid\<rparr>"
  have e: "wf (enqueue now rid ep s)"
  proof (cases "isProcessingQueue s")
    case True
    with w show ?thesis
      by (simp add: enqueue_def processQueue_def observe_def wf_push)
  next
    case False
    have "running (next_tid s) (s\<lparr>queue := queue s @ [?x], trace := trace s @ [Enqueued now rid ep],
             isProcessingQueue := True, next_tid := Suc (next_tid s)\<rparr>)"
      using w False by (auto simp: wf_def running_def worker_tasks_def worker_ok_False)
    from wf_worker_loop [OF this, of now] c False show ?thesis
      by (simp add: enqueue_def processQueue_def observe_def)
  qed
  show ?thesis
    using w e by (simp add: proxyRequest_def split: option.splits)
qed


lemma take_worker:
  assumes "wf s" and "map_of (tasks s) tid = Some p" and "is_worker p" and "clock s \<le> now"
  shows "running tid (remove_task tid (s\<lparr>clock := now\<rparr>))"
    and "worker_tasks s = [(tid, p)]"
    and "worker_pc_ok (queue s) (lastRequestTime s) p"
proof -
  from assms(2) have m: "(tid, p) \<in> set (tasks s)"
    by (rule map_of_SomeD)
  with assms(3) have "(tid, p) \<in> set (worker_tasks s)"
    by (simp add: worker_tasks_def)
  with assms(1) have f: "isProcessingQueue s"
    by (cases "isProcessingQueue s") (auto simp: wf_def worker_ok_False)
  with assms(1) \<open>(tid, p) \<in> set (worker_tasks s)\<close>
  show w: "worker_tasks s = [(tid, p)]" and "worker_pc_ok (queue s) (lastRequestTime s) p"
    by (auto simp: wf_def worker_ok_True)
  have "filter (\<lambda>x. is_worker (snd x)) (filter (\<lambda>x. fst x \<noteq> tid) (tasks s))
        = filter (\<lambda>x. fst x \<noteq> tid) (worker_tasks s)"
    by (simp add: worker_tasks_def conj_commute)
  with w have "worker_tasks (remove_task tid (s\<lparr>clock := now\<rparr>)) = []"
    by (simp add: worker_tasks_def remove_task_def)
  with assms(1,4) f m show "running tid (remove_task tid (s\<lparr>clock := now\<rparr>))"
    by (auto simp: running_def wf_def remove_task_def distinct_map_filter)
qed

lemma take_handler:
  assumes "wf s" and "map_of (tasks s) tid = Some p" and "\<not> is_worker p"
  shows "worker_tasks (remove_task tid s) = worker_tasks s"
    and "tid \<notin> fst ` set (tasks (remove_task tid s))"
    and "tid < next_tid s"
proof -
  from assms(1) have d: "distinct (map fst (tasks s))"
    by (simp add: wf_def)
  have "fst x \<noteq> tid" if "x \<in> set (tasks s)" "is_worker (snd x)" for x
  proof
    assume "fst x = tid"
    with that(1) d have "map_of (tasks s) tid = Some (snd x)"
      by (metis map_of_is_SomeI prod.collapse)
    with assms(2,3) that(2) show False by simp
  qed
  then have "filter (\<lambda>x. is_worker (snd x) \<and> fst x \<noteq> tid) (tasks s)
             = filter (\<lambda>x. is_worker (snd x)) (tasks s)"
    by (intro filter_cong) auto
  then show "worker_tasks (remove_task tid s) = worker_tasks s"
    by (simp add: worker_tasks_def remove_task_def conj_commute)
  show "tid \<notin> fst ` set (tasks (remove_task tid s))"
    by (auto simp: remove_task_def)
  from assms(1) map_of_SomeD [OF assms(2)] show "tid < next_tid s"
    by (auto simp: wf_def)
qed

lemma wf_handler_start:
  "wf s \<Longrightarrow> wf (handler_start now k rid a s)"
  by (auto simp: wf_def handler_start_def direct_call_def suspend_def observe_def
      worker_tasks_def less_Suc_eq dest: bspec)

lemma wf_clock: "wf s \<Longrightarrow> clock s \<le> now \<Longrightarrow> wf (s\<lparr>clock := now\<rparr>)"
  by (simp add: wf_def worker_tasks_def)

lemma wf_handler_reply:
  assumes "wf s" and "map_of (tasks s) tid = Some (Handler sg k rid tg)"
  shows "wf (handler_reply now tid sg k rid tg h (remove_task tid s))"
proof -
  note t = take_handler [OF assms, simplified]
  have r: "wf (remove_task tid s)"
    using assms(1) t(1) by (auto simp: wf_def remove_task_def distinct_map_filter)
  have c: "wf (direct_call now sg' k rid tg' tid (observe ob (remove_task tid s)))" for sg' tg' ob
    using r t by (auto simp: wf_def direct_call_def suspend_def observe_def worker_tasks_def
        remove_task_def)
  show ?thesis
    using r c by (simp add: handler_reply_def Let_def split: hreply.splits stage.splits)
qed

lemma wf_worker_reply:
  assumes "running tid s" and "clock s = now"
  shows "wf (worker_reply now tid it r s)"
proof (cases r)
  case (Resolved st d)
  have "running tid (respond (res it) 200 (Json d)
     (s\<lparr>trace := trace s @ [Finished now (res it) (endpoint it) r], lastRequestTime := now,
         cache := (cache s)(endpoint it \<mapsto> \<lparr>data = d, timestamp = now\<rparr>),
         resolved := resolved s @ [(res it, Some d)]\<rparr>))"
    using assms by (simp add: running_def respond_def worker_tasks_def)
  from wf_worker_loop [OF this, of now] assms(2) Resolved show ?thesis
    by (simp add: worker_reply_def observe_def respond_def)
next
  case (Rejected msg st)
  show ?thesis
  proof (cases "st = Some 429")
    case True
    with Rejected assms show ?thesis
      by (auto simp: worker_reply_def observe_def suspend_def wf_def running_def worker_tasks_def)
  next
    case False
    have "running tid ((respond (res it) (status_or_500 st) (Failure ''Failed to fetch anime data'' msg)
       (s\<lparr>trace := trace s @ [Finished now (res it) (endpoint it) r]\<rparr>))
        \<lparr>resolved := resolved s @ [(res it, None)]\<rparr>)"
      using assms by (simp add: running_def respond_def worker_tasks_def)
    from wf_worker_loop [OF this, of now] assms(2) Rejected False show ?thesis
      by (simp add: worker_reply_def observe_def respond_def)
  qed
qed

lemma wf_step:
  assumes "wf s" and "step now ev s = Some s'"
  shows "wf s'"
proof -
  from assms(2) have c: "clock s \<le> now"
    by (simp add: step_def split: if_splits)
  note w = wf_clock [OF assms(1) c]
  show ?thesis
  proof (cases ev)
    case (Request rid ep)
    with assms(2) c wf_proxyRequest [OF w, of now rid ep] show ?thesis
      by (auto simp: step_def)
  next
    case (Watch rid a p)
    with assms(2) c wf_handler_start [OF w] show ?thesis
      by (auto simp: step_def)
  next
    case (Episodes rid a)
    with assms(2) c wf_handler_start [OF w] show ?thesis
      by (auto simp: step_def)
  next
    case (TimerFired tid)
    from assms(2) c TimerFired obtain p where
      m: "map_of (tasks s) tid = Some p" and iw: "is_worker p"
      by (auto simp: step_def Let_def split: option.splits pc.splits if_splits)
    note t = take_worker [OF assms(1) m iw c]
    show ?thesis
    proof (cases p)
      case (WGate due)
      with t(3) have "queue (remove_task tid (s\<lparr>clock := now\<rparr>)) \<noteq> []"
        by (simp add: remove_task_def)
      from wf_worker_issue [OF t(1) this, of now] assms(2) c TimerFired m WGate show ?thesis
        by (simp add: step_def Let_def split: if_splits)
    next
      case (WBackoff due)
      from wf_worker_loop [OF t(1), of now] assms(2) c TimerFired m WBackoff show ?thesis
        by (simp add: step_def Let_def remove_task_def split: if_splits)
    next
      case (WUpstream it)
      with assms(2) c TimerFired m show ?thesis by (simp add: step_def Let_def)
    next
      case (Handler sg k rid tg)
      with iw show ?thesis by simp
    qed
  next
    case (UpstreamReply tid r)
    from assms(2) c UpstreamReply obtain it where
      m: "map_of (tasks s) tid = Some (WUpstream it)"
      by (auto simp: step_def Let_def split: option.splits pc.splits if_splits)
    note t = take_worker [OF assms(1) m _ c, simplified]
    from wf_worker_reply [OF t(1), of now it r] assms(2) c UpstreamReply m show ?thesis
      by (auto simp: step_def Let_def remove_task_def)
  next
    case (HandlerReply tid h)
    from assms(2) c HandlerReply obtain sg k rid tg where
      m: "map_of (tasks s) tid = Some (Handler sg k rid tg)"
      by (auto simp: step_def Let_def split: option.splits pc.splits if_splits)
    have "map_of (tasks (s\<lparr>clock := now\<rparr>)) tid = Some (Handler sg k rid tg)"
      using m by simp
    from wf_handler_reply [OF w this, of now h] assms(2) c HandlerReply m show ?thesis
      by (auto simp: step_def Let_def remove_task_def)
  qed
qed

lemma wf_run: "wf s \<Longrightarrow> run evs s = Some s' \<Longrightarrow> wf s'"
proof (induction evs arbitrary: s)
  case Nil
  then show ?case by simp
next
  case (Cons e evs)
  then show ?case
    by (cases e) (auto split: option.splits dest: wf_step)
qed

lemma wf_reachable: "run evs init_state = Some s \<Longrightarrow> wf s"
  using wf_init by (rule wf_run)


subsection \<open>Running the model on concrete events\<close>

lemmas exec_defs = init_state_def step_def proxyRequest_def enqueue_def processQueue_def
  worker_loop_def worker_issue_def worker_reply_def observe_def suspend_def respond_def
  remove_task_def handler_start_def direct_call_def handler_reply_def RATE_LIMIT_DELAY_def
  CACHE_DURATION_def status_or_500_def episode_or_1_def failure_title_def Let_def

subsection \<open>One worker loop at a time\<close>

lemma worker_tasks_le_1: "wf s \<Longrightarrow> length (worker_tasks s) \<le> 1"
  by (cases "isProcessingQueue s") (auto simp: wf_def worker_ok_False worker_ok_True)

lemma flag_iff_worker: "wf s \<Longrightarrow> isProcessingQueue s \<longleftrightarrow> worker_tasks s \<noteq> []"
  by (cases "isProcessingQueue s") (auto simp: wf_def worker_ok_False worker_ok_True)

text \<open>
  Claim C8. In every reachable state, calling \<open>processQueue\<close> while
  \<open>isProcessingQueue\<close> is set changes nothing (nothing is dequeued, no call is issued);
  there is at most one worker-loop task; and the flag is set exactly while a worker-loop
  task exists, so it is cleared when the loop has exited.
\<close>

theorem single_worker_loop:
  assumes "run evs init_state = Some s"
  shows "(isProcessingQueue s \<longrightarrow> processQueue now s = s) \<and>
         length (worker_tasks s) \<le> 1 \<and>
         (isProcessingQueue s \<longleftrightarrow> worker_tasks s \<noteq> [])"
proof -
  have "wf s" using assms by (rule wf_reachable)
  then show ?thesis
    using worker_tasks_le_1 flag_iff_worker by (simp add: processQueue_def)
qed

theorem single_worker_loop_witness:
  "run [(10000, Request 1 ''/seasons/now?limit=24''),
        (10020, Request 2 ''/top/anime?filter=airing&limit=24'')] init_state \<noteq> None \<and>
   isProcessingQueue (the (run [(10000, Request 1 ''/seasons/now?limit=24''),
        (10020, Request 2 ''/top/anime?filter=airing&limit=24'')] init_state)) \<and>
   processQueue 10020 (the (run [(10000, Request 1 ''/seasons/now?limit=24''),
        (10020, Request 2 ''/top/anime?filter=airing&limit=24'')] init_state)) =
     the (run [(10000, Request 1 ''/seasons/now?limit=24''),
        (10020, Request 2 ''/top/anime?filter=airing&limit=24'')] init_state) \<and>
   length (worker_tasks (the (run [(10000, Request 1 ''/seasons/now?limit=24''),
        (10020, Request 2 ''/top/anime?filter=airing&limit=24'')] init_state))) \<le> 1"
proof -
  obtain s where r: "run [(10000, Request 1 ''/seasons/now?limit=24''),
        (10020, Request 2 ''/top/anime?filter=airing&limit=24'')] init_state = Some s"
    and f: "isProcessingQueue s"
    by (simp add: exec_defs)
  from single_worker_loop [OF r, of 10020] f r show ?thesis
    by simp
qed

subsection \<open>Calls in flight\<close>

lemma no_handlers_step:
  assumes "step now ev s = Some s'" and "\<not> streaming_request ev"
    and "\<forall>x \<in> set (tasks s). is_worker (snd x)"
  shows "\<forall>x \<in> set (tasks s'). is_worker (snd x)"
proof (cases ev)
  case (Request rid ep)
  with assms(1,3) show ?thesis
    by (auto simp: exec_defs split: if_splits option.splits list.splits)
next
  case (TimerFired tid)
  with assms(1,3) show ?thesis
    by (auto simp: exec_defs split: if_splits option.splits list.splits pc.splits)
next
  case (UpstreamReply tid r)
  with assms(1,3) show ?thesis
    by (auto simp: exec_defs split: if_splits option.splits list.splits pc.splits axios_result.splits)
next
  case (HandlerReply tid h)
  with assms(1) obtain sg k rid tg where "map_of (tasks s) tid = Some (Handler sg k rid tg)"
    by (auto simp: step_def Let_def split: if_splits option.splits pc.splits)
  from map_of_SomeD [OF this] assms(3) show ?thesis by auto
qed (use assms(2) in simp_all)

lemma no_handlers_run:
  "run evs s = Some s' \<Longrightarrow> \<forall>e \<in> set evs. \<not> streaming_request (snd e) \<Longrightarrow>
   \<forall>x \<in> set (tasks s). is_worker (snd x) \<Longrightarrow> \<forall>x \<in> set (tasks s'). is_worker (snd x)"
proof (induction evs arbitrary: s)
  case Nil
  then show ?case by simp
next
  case (Cons e evs)
  obtain now ev where e: "e = (now, ev)" by (cases e)
  with Cons.prems(1) obtain s1 where s1: "step now ev s = Some s1" and r: "run evs s1 = Some s'"
    by (auto split: option.splits)
  from no_handlers_step [OF s1] Cons.prems(2,3) e
  have "\<forall>x \<in> set (tasks s1). is_worker (snd x)" by simp
  with Cons.IH [OF r] Cons.prems(2) show ?case by simp
qed

text \<open>
  Claim C6, as amended. In every reachable state at most one upstream call issued by the
  queue worker is in flight; and when the events are requests to the proxy routes only
  (no request to a streaming route), at most one upstream call is in flight at all.
\<close>

theorem one_worker_call_in_flight:
  assumes "run evs init_state = Some s"
  shows "length (worker_in_flight s) \<le> 1 \<and>
         ((\<forall>e \<in> set evs. \<not> streaming_request (snd e)) \<longrightarrow> length (in_flight s) \<le> 1)"
proof -
  have w: "length (worker_tasks s) \<le> 1"
    using assms by (intro worker_tasks_le_1 wf_reachable)
  have "worker_in_flight s = filter (\<lambda>x. awaits_upstream (snd x)) (worker_tasks s)"
    by (simp add: worker_in_flight_def worker_tasks_def conj_commute)
  then have a: "length (worker_in_flight s) \<le> 1"
    using w le_trans [OF length_filter_le] by simp
  have "length (in_flight s) \<le> 1" if "\<forall>e \<in> set evs. \<not> streaming_request (snd e)"
  proof -
    from no_handlers_run [OF assms that]
    have "\<forall>x \<in> set (tasks s). is_worker (snd x)" by (simp add: init_state_def)
    then have "in_flight s = worker_in_flight s"
      unfolding in_flight_def worker_in_flight_def by (intro filter_cong) auto
    with a show ?thesis by simp
  qed
  with a show ?thesis by blast
qed

theorem one_worker_call_in_flight_witness:
  "run [(10000, Request 1 ''/anime/1/full''), (10001, Request 2 ''/anime/2/full'')] init_state \<noteq> None \<and>
   length (in_flight (the (run [(10000, Request 1 ''/anime/1/full''), (10001, Request 2 ''/anime/2/full'')] init_state))) = 1"
proof -
  obtain s where r: "run [(10000, Request 1 ''/anime/1/full''), (10001, Request 2 ''/anime/2/full'')] init_state = Some s"
    and f: "length (in_flight s) = 1"
    by (simp add: exec_defs in_flight_def)
  from one_worker_call_in_flight [OF r] f r show ?thesis
    by simp
qed

text \<open>
  Claim C6 as stated fails: a request to \<open>/api/info/1\<close> followed by a request to
  \<open>/api/watch/1/1\<close> leaves two upstream calls in flight, the worker's and the one
  the streaming handler issues itself.
\<close>

theorem two_calls_in_flight:
  "run [(10000, Request 1 ''/anime/1/full''), (10001, Watch 2 ''1'' (Some 1))] init_state \<noteq> None \<and>
   length (in_flight (the (run [(10000, Request 1 ''/anime/1/full''), (10001, Watch 2 ''1'' (Some 1))] init_state))) = 2"
  by (simp add: exec_defs in_flight_def)


subsection \<open>What the loop head leaves alone\<close>

lemma lastRequestTime_worker_loop [simp]:
  "lastRequestTime (worker_loop now tid s) = lastRequestTime s"
  by (simp add: worker_loop_def worker_issue_def suspend_def observe_def Let_def split: list.splits)

lemma cache_worker_loop [simp]:
  "cache (worker_loop now tid s) = cache s"
  by (simp add: worker_loop_def worker_issue_def suspend_def observe_def Let_def split: list.splits)

lemma responses_worker_loop [simp]:
  "responses (worker_loop now tid s) = responses s"
  by (simp add: worker_loop_def worker_issue_def suspend_def observe_def Let_def split: list.splits)

lemma resolved_worker_loop [simp]:
  "resolved (worker_loop now tid s) = resolved s"
  by (simp add: worker_loop_def worker_issue_def suspend_def observe_def Let_def split: list.splits)

lemma queue_worker_loop:
  "queue (worker_loop now tid s) = queue s \<or> queue (worker_loop now tid s) = tl (queue s)"
  by (simp add: worker_loop_def worker_issue_def suspend_def observe_def Let_def split: list.splits)

subsection \<open>The rate governor's timestamp\<close>

text \<open>
  Claim C7. Whatever the event, \<open>lastRequestTime\<close> after it is the time of the event
  when the event is an upstream call of the worker resolving successfully, and is
  unchanged otherwise: on a rejected call (429 or any other failure), on a request, on a
  timer and on the events of the streaming handlers.
\<close>

theorem lastRequestTime_only_on_success:
  assumes "step now ev s = Some s'"
  shows "lastRequestTime s' =
           (case ev of
              UpstreamReply tid r \<Rightarrow>
                (case r of Resolved st d \<Rightarrow> now | Rejected m st \<Rightarrow> lastRequestTime s)
            | _ \<Rightarrow> lastRequestTime s)"
proof (cases ev)
  case (Request rid ep)
  with assms show ?thesis
    by (auto simp: step_def Let_def proxyRequest_def enqueue_def processQueue_def respond_def observe_def
        split: if_splits option.splits)
next
  case (Watch rid a p)
  with assms show ?thesis
    by (auto simp: step_def Let_def handler_start_def direct_call_def suspend_def observe_def split: if_splits)
next
  case (Episodes rid a)
  with assms show ?thesis
    by (auto simp: step_def Let_def handler_start_def direct_call_def suspend_def observe_def split: if_splits)
next
  case (TimerFired tid)
  with assms show ?thesis
    by (auto simp: step_def Let_def worker_issue_def suspend_def observe_def remove_task_def
        split: if_splits option.splits pc.splits list.splits)
next
  case (UpstreamReply tid r)
  with assms show ?thesis
    by (auto simp: step_def Let_def worker_reply_def suspend_def observe_def respond_def
        remove_task_def split: if_splits option.splits pc.splits axios_result.splits)
next
  case (HandlerReply tid h)
  with assms show ?thesis
    by (auto simp: step_def Let_def handler_reply_def direct_call_def suspend_def observe_def
        respond_def remove_task_def split: if_splits option.splits pc.splits hreply.splits stage.splits)
qed

theorem lastRequestTime_only_on_success_witness:
  "step 10300 (UpstreamReply 0 (Resolved 200 ''ok''))
     (the (run [(10000, Request 1 ''/seasons/now?limit=24'')] init_state)) \<noteq> None \<and>
   lastRequestTime (the (step 10300 (UpstreamReply 0 (Resolved 200 ''ok''))
     (the (run [(10000, Request 1 ''/seasons/now?limit=24'')] init_state)))) = 10300 \<and>
   step 10300 (UpstreamReply 0 (Rejected ''Request failed with status code 429'' (Some 429)))
     (the (run [(10000, Request 1 ''/seasons/now?limit=24'')] init_state)) \<noteq> None \<and>
   lastRequestTime (the (step 10300 (UpstreamReply 0 (Rejected ''Request failed with status code 429'' (Some 429)))
     (the (run [(10000, Request 1 ''/seasons/now?limit=24'')] init_state)))) = 0 \<and>
   step 10300 (UpstreamReply 0 (Rejected ''timeout of 10000ms exceeded'' None))
     (the (run [(10000, Request 1 ''/seasons/now?limit=24'')] init_state)) \<noteq> None \<and>
   lastRequestTime (the (step 10300 (UpstreamReply 0 (Rejected ''timeout of 10000ms exceeded'' None))
     (the (run [(10000, Request 1 ''/seasons/now?limit=24'')] init_state)))) = 0"
proof -
  let ?s = "the (run [(10000, Request 1 ''/seasons/now?limit=24'')] init_state)"
  have l: "lastRequestTime ?s = 0"
    by (simp add: exec_defs)
  obtain s1 where s1: "step 10300 (UpstreamReply 0 (Resolved 200 ''ok'')) ?s = Some s1"
    by (simp add: exec_defs)
  obtain s2 where s2: "step 10300 (UpstreamReply 0 (Rejected ''Request failed with status code 429'' (Some 429))) ?s = Some s2"
    by (simp add: exec_defs)
  obtain s3 where s3: "step 10300 (UpstreamReply 0 (Rejected ''timeout of 10000ms exceeded'' None)) ?s = Some s3"
    by (simp add: exec_defs)
  from lastRequestTime_only_on_success [OF s1] lastRequestTime_only_on_success [OF s2]
    lastRequestTime_only_on_success [OF s3] l s1 s2 s3
  show ?thesis by simp
qed

subsection \<open>Failures other than 429\<close>

text \<open>
  Claim C5. When the call the worker awaits for the item \<open>it\<close> is rejected with anything
  but status 429 (no status at all on a timeout or network error, or an HTTP status,
  which is never 0), the step sends the item's client the error body with the upstream
  status, or 500 when there is none, resolves the item's promise with \<open>null\<close>, and
  leaves the cache and \<open>lastRequestTime\<close> as they were. The item is not retried: it is
  put nowhere. With an empty queue the worker ends, with no call started and no timer
  set; otherwise the worker sleeps at the gate with the queue as it was, or starts the
  call of the item that was at the head of the queue.
\<close>

theorem terminal_failure:
  assumes "map_of (tasks s) tid = Some (WUpstream it)" and "clock s \<le> now"
    and "st \<noteq> Some 429" and "st \<noteq> Some 0"
  shows "\<exists>s'. step now (UpstreamReply tid (Rejected m st)) s = Some s' \<and>
           responses s' = responses s @
             [(res it, \<lparr>status = (case st of Some n \<Rightarrow> n | None \<Rightarrow> 500),
                        body = Failure ''Failed to fetch anime data'' m\<rparr>)] \<and>
           resolved s' = resolved s @ [(res it, None)] \<and>
           cache s' = cache s \<and>
           (queue s' = queue s \<or> queue s' = tl (queue s)) \<and>
           lastRequestTime s' = lastRequestTime s \<and>
           (case queue s of
              [] \<Rightarrow>
                trace s' = trace s @ [Finished now (res it) (endpoint it) (Rejected m st)] \<and>
                queue s' = [] \<and> \<not> isProcessingQueue s' \<and>
                tasks s' = filter (\<lambda>x. fst x \<noteq> tid) (tasks s)
            | x # rest \<Rightarrow>
                if now - lastRequestTime s < RATE_LIMIT_DELAY
                then trace s' = trace s @ [Finished now (res it) (endpoint it) (Rejected m st)] \<and>
                     queue s' = x # rest \<and>
                     tasks s' = filter (\<lambda>x. fst x \<noteq> tid) (tasks s) @
                       [(tid, WGate (lastRequestTime s + RATE_LIMIT_DELAY))]
                else trace s' = trace s @
                       [Finished now (res it) (endpoint it) (Rejected m st),
                        Started now (Worker (res x)) (Jikan (endpoint x))] \<and>
                     queue s' = rest \<and>
                     tasks s' = filter (\<lambda>x. fst x \<noteq> tid) (tasks s) @ [(tid, WUpstream x)])"
proof -
  let ?s1 = "(respond (res it) (status_or_500 st) (Failure ''Failed to fetch anime data'' m)
               (observe (Finished now (res it) (endpoint it) (Rejected m st))
                 (remove_task tid (s\<lparr>clock := now\<rparr>))))
             \<lparr>resolved := resolved s @ [(res it, None)]\<rparr>"
  have s: "step now (UpstreamReply tid (Rejected m st)) s = Some (worker_loop now tid ?s1)"
    using assms(1-3) by (simp add: step_def worker_reply_def Let_def observe_def remove_task_def)
  have st: "status_or_500 st = (case st of Some n \<Rightarrow> n | None \<Rightarrow> 500)"
    using assms(4) by (simp add: status_or_500_def split: option.splits)
  have q: "queue ?s1 = queue s"
    by (simp add: respond_def observe_def remove_task_def)
  have a: "responses (worker_loop now tid ?s1) = responses s @
             [(res it, \<lparr>status = (case st of Some n \<Rightarrow> n | None \<Rightarrow> 500),
                        body = Failure ''Failed to fetch anime data'' m\<rparr>)]"
    and b: "resolved (worker_loop now tid ?s1) = resolved s @ [(res it, None)]"
    and c: "cache (worker_loop now tid ?s1) = cache s"
    and l: "lastRequestTime (worker_loop now tid ?s1) = lastRequestTime s"
    using st by (simp_all add: respond_def observe_def remove_task_def)
  have d: "queue (worker_loop now tid ?s1) = queue s \<or> queue (worker_loop now tid ?s1) = tl (queue s)"
    using queue_worker_loop [of now tid ?s1] q by simp
  have e: "case queue s of
              [] \<Rightarrow>
                trace (worker_loop now tid ?s1) =
                  trace s @ [Finished now (res it) (endpoint it) (Rejected m st)] \<and>
                queue (worker_loop now tid ?s1) = [] \<and> \<not> isProcessingQueue (worker_loop now tid ?s1) \<and>
                tasks (worker_loop now tid ?s1) = filter (\<lambda>x. fst x \<noteq> tid) (tasks s)
            | x # rest \<Rightarrow>
                if now - lastRequestTime s < RATE_LIMIT_DELAY
                then trace (worker_loop now tid ?s1) =
                       trace s @ [Finished now (res it) (endpoint it) (Rejected m st)] \<and>
                     queue (worker_loop now tid ?s1) = x # rest \<and>
                     tasks (worker_loop now tid ?s1) = filter (\<lambda>x. fst x \<noteq> tid) (tasks s) @
                       [(tid, WGate (lastRequestTime s + RATE_LIMIT_DELAY))]
                else trace (worker_loop now tid ?s1) = trace s @
                       [Finished now (res it) (endpoint it) (Rejected m st),
                        Started now (Worker (res x)) (Jikan (endpoint x))] \<and>
                     queue (worker_loop now tid ?s1) = rest \<and>
                     tasks (worker_loop now tid ?s1) =
                       filter (\<lambda>x. fst x \<noteq> tid) (tasks s) @ [(tid, WUpstream x)]"
    by (cases "queue s")
       (simp_all add: worker_loop_def worker_issue_def Let_def suspend_def respond_def
          observe_def remove_task_def)
  from s a b c d l e show ?thesis
    by blast
qed

theorem terminal_failure_witness:
  "map_of (tasks (the (run [(10000, Request 1 ''/anime/1/full'')] init_state))) 0
     = Some (WUpstream \<lparr>endpoint = ''/anime/1/full'', res = 1\<rparr>) \<and>
   step 10300 (UpstreamReply 0 (Rejected ''Request failed with status code 404'' (Some 404)))
     (the (run [(10000, Request 1 ''/anime/1/full'')] init_state)) \<noteq> None \<and>
   responses (the (step 10300 (UpstreamReply 0 (Rejected ''Request failed with status code 404'' (Some 404)))
     (the (run [(10000, Request 1 ''/anime/1/full'')] init_state)))) =
     [(1, \<lparr>status = 404, body = Failure ''Failed to fetch anime data'' ''Request failed with status code 404''\<rparr>)] \<and>
   cache (the (step 10300 (UpstreamReply 0 (Rejected ''Request failed with status code 404'' (Some 404)))
     (the (run [(10000, Request 1 ''/anime/1/full'')] init_state)))) ''/anime/1/full'' = None \<and>
   tasks (the (step 10300 (UpstreamReply 0 (Rejected ''Request failed with status code 404'' (Some 404)))
     (the (run [(10000, Request 1 ''/anime/1/full'')] init_state)))) = [] \<and>
   trace (the (step 10300 (UpstreamReply 0 (Rejected ''Request failed with status code 404'' (Some 404)))
     (the (run [(10000, Request 1 ''/anime/1/full'')] init_state)))) =
     [Enqueued 10000 1 ''/anime/1/full'', Started 10000 (Worker 1) (Jikan ''/anime/1/full''),
      Finished 10300 1 ''/anime/1/full'' (Rejected ''Request failed with status code 404'' (Some 404))]"
proof -
  let ?s = "the (run [(10000, Request 1 ''/anime/1/full'')] init_state)"
  have m: "map_of (tasks ?s) 0 = Some (WUpstream \<lparr>endpoint = ''/anime/1/full'', res = 1\<rparr>)"
    and c: "clock ?s \<le> 10300" and e: "cache ?s = Map.empty" and r: "responses ?s = []"
    and q: "queue ?s = []" and k: "tasks ?s = [(0, WUpstream \<lparr>endpoint = ''/anime/1/full'', res = 1\<rparr>)]"
    and t: "trace ?s = [Enqueued 10000 1 ''/anime/1/full'',
                        Started 10000 (Worker 1) (Jikan ''/anime/1/full'')]"
    by (simp_all add: exec_defs)
  from terminal_failure [OF m c, of "Some 404" "''Request failed with status code 404''"] m e r q k t
  show ?thesis by auto
qed


subsection \<open>The streaming handlers and the proxy\<close>

text \<open>
  Claim C9, as amended. No step of a streaming handler goes through the proxy: a request
  to \<open>/api/watch\<close> or \<open>/api/episodes\<close> and every reply to a handler's call leave the
  cache, the queue, \<open>lastRequestTime\<close> and \<open>isProcessingQueue\<close> unchanged, add only
  entries of direct calls to the trace, and a request starts the metadata call
  \<open>/anime/<id>/full\<close> at once, whatever the cache holds.
\<close>

theorem streaming_bypasses_proxy:
  assumes "streaming_event ev" and "step now ev s = Some s'"
  shows "cache s' = cache s \<and> queue s' = queue s \<and>
         lastRequestTime s' = lastRequestTime s \<and>
         isProcessingQueue s' = isProcessingQueue s \<and>
         (\<exists>obs. trace s' = trace s @ obs \<and> list_all direct_obs obs) \<and>
         (case ev of
            Watch rid a p \<Rightarrow>
              trace s' = trace s @ [Started now (Direct rid) (Jikan (''/anime/'' @ a @ ''/full''))]
          | Episodes rid a \<Rightarrow>
              trace s' = trace s @ [Started now (Direct rid) (Jikan (''/anime/'' @ a @ ''/full''))]
          | _ \<Rightarrow> True)"
proof (cases ev)
  case (Watch rid a p)
  with assms(2) show ?thesis
    by (auto simp: step_def Let_def handler_start_def direct_call_def suspend_def observe_def split: if_splits)
next
  case (Episodes rid a)
  with assms(2) show ?thesis
    by (auto simp: step_def Let_def handler_start_def direct_call_def suspend_def observe_def split: if_splits)
next
  case (HandlerReply tid h)
  with assms(2) show ?thesis
    by (auto simp: step_def Let_def handler_reply_def direct_call_def suspend_def observe_def
        respond_def remove_task_def split: if_splits option.splits pc.splits hreply.splits stage.splits)
qed (use assms(1) in simp_all)

theorem streaming_bypasses_proxy_witness:
  "step 10400 (Watch 2 ''1'' (Some 1))
     (the (run [(10000, Request 1 ''/anime/1/full''),
                (10300, UpstreamReply 0 (Resolved 200 ''naruto''))] init_state)) \<noteq> None \<and>
   cache (the (step 10400 (Watch 2 ''1'' (Some 1))
     (the (run [(10000, Request 1 ''/anime/1/full''),
                (10300, UpstreamReply 0 (Resolved 200 ''naruto''))] init_state)))) ''/anime/1/full''
     = Some \<lparr>data = ''naruto'', timestamp = 10300\<rparr> \<and>
   queue (the (step 10400 (Watch 2 ''1'' (Some 1))
     (the (run [(10000, Request 1 ''/anime/1/full''),
                (10300, UpstreamReply 0 (Resolved 200 ''naruto''))] init_state)))) = []"
proof -
  let ?s = "the (run [(10000, Request 1 ''/anime/1/full''),
                (10300, UpstreamReply 0 (Resolved 200 ''naruto''))] init_state)"
  have c: "cache ?s ''/anime/1/full'' = Some \<lparr>data = ''naruto'', timestamp = 10300\<rparr>"
    and q: "queue ?s = []"
    by (simp_all add: exec_defs)
  obtain s' where s: "step 10400 (Watch 2 ''1'' (Some 1)) ?s = Some s'"
    by (simp add: exec_defs)
  from streaming_bypasses_proxy [OF _ s] c q s show ?thesis
    by simp
qed

text \<open>
  Claim C9 as stated fails: with a fresh cache entry for \<open>/anime/1/full\<close>, written 100 ms
  earlier by the proxy, a request to \<open>/api/watch/1/1\<close> still starts an upstream call for
  \<open>/anime/1/full\<close>, at once and outside the queue.
\<close>

theorem watch_ignores_fresh_cache:
  "run [(10000, Request 1 ''/anime/1/full''),
        (10300, UpstreamReply 0 (Resolved 200 ''naruto'')),
        (10400, Watch 2 ''1'' (Some 1))] init_state \<noteq> None \<and>
   cache (the (run [(10000, Request 1 ''/anime/1/full''),
        (10300, UpstreamReply 0 (Resolved 200 ''naruto'')),
        (10400, Watch 2 ''1'' (Some 1))] init_state)) ''/anime/1/full''
     = Some \<lparr>data = ''naruto'', timestamp = 10300\<rparr> \<and>
   trace (the (run [(10000, Request 1 ''/anime/1/full''),
        (10300, UpstreamReply 0 (Resolved 200 ''naruto'')),
        (10400, Watch 2 ''1'' (Some 1))] init_state)) =
     [Enqueued 10000 1 ''/anime/1/full'',
      Started 10000 (Worker 1) (Jikan ''/anime/1/full''),
      Finished 10300 1 ''/anime/1/full'' (Resolved 200 ''naruto''),
      Started 10400 (Direct 2) (Jikan ''/anime/1/full'')]"
  by (simp add: exec_defs)


subsection \<open>The cache holds the latest success\<close>

lemma last_success_snoc:
  "last_success K (obs @ [ob]) =
     (case success_of K ob of Some r \<Rightarrow> Some r | None \<Rightarrow> last_success K obs)"
  by (induction obs) (auto split: option.splits)

lemma cache_agrees_observe [simp]:
  "\<forall>K. success_of K ob = None \<Longrightarrow> cache_agrees (observe ob s) = cache_agrees s"
  by (simp add: cache_agrees_def observe_def last_success_snoc)

lemma cache_agrees_frame [simp]:
  "cache_agrees (suspend tid p s) = cache_agrees s"
  "cache_agrees (respond rid n b s) = cache_agrees s"
  "cache_agrees (remove_task tid s) = cache_agrees s"
  "cache_agrees (s\<lparr>queue := q\<rparr>) = cache_agrees s"
  "cache_agrees (s\<lparr>clock := c\<rparr>) = cache_agrees s"
  "cache_agrees (s\<lparr>resolved := rv\<rparr>) = cache_agrees s"
  "cache_agrees (s\<lparr>next_tid := n'\<rparr>) = cache_agrees s"
  "cache_agrees (s\<lparr>isProcessingQueue := f\<rparr>) = cache_agrees s"
  by (simp_all add: cache_agrees_def suspend_def respond_def remove_task_def)

lemma cache_agrees_worker_issue:
  "cache_agrees s \<Longrightarrow> cache_agrees (worker_issue now tid s)"
  by (cases "queue s") (simp_all add: worker_issue_def)

lemma cache_agrees_worker_loop:
  "cache_agrees s \<Longrightarrow> cache_agrees (worker_loop now tid s)"
  by (simp add: worker_loop_def Let_def cache_agrees_worker_issue)

lemma cache_agrees_proxyRequest:
  "cache_agrees s \<Longrightarrow> cache_agrees (proxyRequest now rid ep s)"
  by (simp add: proxyRequest_def enqueue_def processQueue_def cache_agrees_worker_loop
      split: option.splits)

lemma cache_agrees_handler_start:
  "cache_agrees s \<Longrightarrow> cache_agrees (handler_start now k rid a s)"
  by (simp add: handler_start_def direct_call_def)

lemma cache_agrees_handler_reply:
  "cache_agrees s \<Longrightarrow> cache_agrees (handler_reply now tid sg k rid tg h s)"
  by (simp add: handler_reply_def Let_def direct_call_def split: hreply.splits stage.splits)

lemma cache_agrees_store:
  assumes "cache_agrees s"
  shows "cache_agrees
           ((observe (Finished now rid ep (Resolved st d)) s)
              \<lparr>lastRequestTime := now,
                cache := (cache s)(ep \<mapsto> \<lparr>data = d, timestamp = now\<rparr>),
                resolved := rv\<rparr>)"
  using assms by (auto simp: cache_agrees_def observe_def last_success_snoc entry_of_def)

lemma cache_agrees_worker_reply:
  assumes "cache_agrees s"
  shows "cache_agrees (worker_reply now tid it r s)"
proof (cases r)
  case (Resolved st d)
  with cache_agrees_store [OF assms, where now = now and rid = "res it" and ep = "endpoint it"
      and st = st and d = d] show ?thesis
    by (simp add: worker_reply_def Let_def cache_agrees_worker_loop observe_def)
next
  case (Rejected m st)
  with assms show ?thesis
    by (simp add: worker_reply_def Let_def cache_agrees_worker_loop)
qed

lemma cache_agrees_step:
  assumes "cache_agrees s" and "step now ev s = Some s'"
  shows "cache_agrees s'"
  using assms
  by (cases ev)
     (auto simp: step_def Let_def cache_agrees_proxyRequest cache_agrees_handler_start
        cache_agrees_handler_reply cache_agrees_worker_reply cache_agrees_worker_issue
        cache_agrees_worker_loop
        split: if_splits option.splits pc.splits)

lemma cache_agrees_run: "cache_agrees s \<Longrightarrow> run evs s = Some s' \<Longrightarrow> cache_agrees s'"
proof (induction evs arbitrary: s)
  case Nil
  then show ?case by simp
next
  case (Cons e evs)
  then show ?case
    by (cases e) (auto split: option.splits dest: cache_agrees_step)
qed

lemma successes_bounded_observe [simp]:
  "\<forall>K. success_of K ob = None \<Longrightarrow> successes_bounded (observe ob s) = successes_bounded s"
  by (simp add: successes_bounded_def observe_def last_success_snoc)

lemma successes_bounded_frame [simp]:
  "successes_bounded (suspend tid p s) = successes_bounded s"
  "successes_bounded (respond rid n b s) = successes_bounded s"
  "successes_bounded (remove_task tid s) = successes_bounded s"
  "successes_bounded (s\<lparr>queue := q\<rparr>) = successes_bounded s"
  "successes_bounded (s\<lparr>tasks := ts\<rparr>) = successes_bounded s"
  "successes_bounded (s\<lparr>cache := c\<rparr>) = successes_bounded s"
  "successes_bounded (s\<lparr>lastRequestTime := l\<rparr>) = successes_bounded s"
  "successes_bounded (s\<lparr>resolved := rv\<rparr>) = successes_bounded s"
  "successes_bounded (s\<lparr>next_tid := n'\<rparr>) = successes_bounded s"
  "successes_bounded (s\<lparr>isProcessingQueue := f\<rparr>) = successes_bounded s"
  by (simp_all add: successes_bounded_def suspend_def respond_def remove_task_def)

lemma successes_bounded_clock:
  "successes_bounded s \<Longrightarrow> clock s \<le> now \<Longrightarrow> successes_bounded (s\<lparr>clock := now\<rparr>)"
  unfolding successes_bounded_def by (simp, fastforce)

lemma successes_bounded_worker_issue:
  "successes_bounded s \<Longrightarrow> successes_bounded (worker_issue now tid s)"
  by (cases "queue s") (simp_all add: worker_issue_def)

lemma successes_bounded_worker_loop:
  "successes_bounded s \<Longrightarrow> successes_bounded (worker_loop now tid s)"
  by (simp add: worker_loop_def Let_def successes_bounded_worker_issue)

lemma successes_bounded_proxyRequest:
  "successes_bounded s \<Longrightarrow> successes_bounded (proxyRequest now rid ep s)"
  by (simp add: proxyRequest_def enqueue_def processQueue_def successes_bounded_worker_loop
      split: option.splits)

lemma successes_bounded_handler_start:
  "successes_bounded s \<Longrightarrow> successes_bounded (handler_start now k rid a s)"
  by (simp add: handler_start_def direct_call_def)

lemma successes_bounded_handler_reply:
  "successes_bounded s \<Longrightarrow> successes_bounded (handler_reply now tid sg k rid tg h s)"
  by (simp add: handler_reply_def Let_def direct_call_def split: hreply.splits stage.splits)

lemma successes_bounded_success:
  assumes "successes_bounded s" and "clock s = now"
  shows "successes_bounded (observe (Finished now rid ep (Resolved st d)) s)"
  unfolding successes_bounded_def
proof (intro ballI allI impI)
  fix ob K t d'
  let ?tr = "trace (observe (Finished now rid ep (Resolved st d)) s)"
  assume m: "ob \<in> set ?tr" and su: "success_of K ob = Some (t, d')"
  have tr: "?tr = trace s @ [Finished now rid ep (Resolved st d)]"
    and c: "clock (observe (Finished now rid ep (Resolved st d)) s) = now"
    using assms(2) by (simp_all add: observe_def)
  have old: "\<exists>t1 d1. last_success K (trace s) = Some (t1, d1) \<and> t \<le> t1 \<and> t1 \<le> now"
    if "ob \<in> set (trace s)"
    using assms that su by (auto simp: successes_bounded_def)
  show "\<exists>t1 d1. last_success K ?tr = Some (t1, d1) \<and> t \<le> t1 \<and>
          t1 \<le> clock (observe (Finished now rid ep (Resolved st d)) s)"
  proof (cases "ep = K")
    case True
    have "t \<le> now"
    proof (cases "ob \<in> set (trace s)")
      case True
      with old show ?thesis by force
    next
      case False
      with m tr have "ob = Finished now rid ep (Resolved st d)" by simp
      with su show ?thesis by (simp split: if_splits)
    qed
    with True tr c show ?thesis
      by (simp add: last_success_snoc)
  next
    case False
    with m tr su have "ob \<in> set (trace s)"
      by auto
    with old False tr c show ?thesis
      by (simp add: last_success_snoc)
  qed
qed

lemma successes_bounded_worker_reply:
  assumes "successes_bounded s" and "clock s = now"
  shows "successes_bounded (worker_reply now tid it r s)"
proof (cases r)
  case (Resolved st d)
  with successes_bounded_success [OF assms, of "res it" "endpoint it" st d] show ?thesis
    by (simp add: worker_reply_def Let_def successes_bounded_worker_loop)
next
  case (Rejected m st)
  with assms(1) show ?thesis
    by (simp add: worker_reply_def Let_def successes_bounded_worker_loop)
qed

lemma successes_bounded_step:
  assumes "successes_bounded s" and "step now ev s = Some s'"
  shows "successes_bounded s'"
proof -
  from assms(2) have "clock s \<le> now"
    by (simp add: step_def split: if_splits)
  from successes_bounded_clock [OF assms(1) this]
  have c: "successes_bounded (s\<lparr>clock := now\<rparr>)" .
  then have "successes_bounded (worker_reply now tid it r (remove_task tid (s\<lparr>clock := now\<rparr>)))"
    for tid it r
    by (intro successes_bounded_worker_reply) (simp_all add: remove_task_def)
  with c assms(2) show ?thesis
    by (cases ev)
       (auto simp: step_def Let_def successes_bounded_proxyRequest
          successes_bounded_handler_start successes_bounded_handler_reply
          successes_bounded_worker_issue successes_bounded_worker_loop
          split: if_splits option.splits pc.splits)
qed

lemma successes_bounded_run:
  "successes_bounded s \<Longrightarrow> run evs s = Some s' \<Longrightarrow> successes_bounded s'"
proof (induction evs arbitrary: s)
  case Nil
  then show ?case by simp
next
  case (Cons e evs)
  then show ?case
    by (cases e) (auto split: option.splits dest: successes_bounded_step)
qed

lemma last_success_append:
  "last_success K (xs @ ys) =
     (case last_success K ys of Some r \<Rightarrow> Some r | None \<Rightarrow> last_success K xs)"
  by (induction xs) (auto split: option.splits)

lemma last_success_none: "\<forall>ob \<in> set obs. success_of K ob = None \<Longrightarrow> last_success K obs = None"
  by (induction obs) auto

lemma last_success_at:
  "\<forall>ob \<in> set post. success_of K ob = None \<Longrightarrow>
   last_success K (pre @ Finished t rid K (Resolved st d) # post) = Some (t, d)"
  by (simp add: last_success_append last_success_none)

text \<open>
  Claim C2, as amended. A prior successful fetch of \<open>K\<close> is an upstream call for \<open>K\<close>
  that resolved at some time \<open>t\<close> with a body \<open>d\<close> (lines 91 to 95 store both). In every
  reachable state, a request for \<open>K\<close> that arrives less than \<open>CACHE_DURATION\<close> after \<open>t\<close>
  only sends a response with status 200: the trace gets no new call, and the queue, the
  tasks and every other part of the state but the clock stay as they were. The body sent
  is that of the most recent success for \<open>K\<close>, which ended at \<open>t\<close> or later; it is \<open>d\<close>
  when no call for \<open>K\<close> has succeeded since.
\<close>

theorem cache_hit:
  assumes "run evs init_state = Some s"
    and "Finished t rid0 K (Resolved st d) \<in> set (trace s)"
    and "clock s \<le> now" and "now - t < CACHE_DURATION"
  shows "\<exists>t1 d1. last_success K (trace s) = Some (t1, d1) \<and> t \<le> t1 \<and>
           step now (Request rid K) s =
             Some (s\<lparr>clock := now,
                      responses := responses s @ [(rid, \<lparr>status = 200, body = Json d1\<rparr>)]\<rparr>) \<and>
           (\<forall>pre post.
              trace s = pre @ Finished t rid0 K (Resolved st d) # post \<and>
              (\<forall>ob \<in> set post. success_of K ob = None) \<longrightarrow> t1 = t \<and> d1 = d)"
proof -
  have "successes_bounded init_state"
    by (simp add: successes_bounded_def init_state_def)
  from successes_bounded_run [OF this assms(1)] assms(2)
  obtain t1 d1 where l: "last_success K (trace s) = Some (t1, d1)" and t: "t \<le> t1"
    unfolding successes_bounded_def by force
  have "cache_agrees init_state"
    by (simp add: cache_agrees_def init_state_def)
  from cache_agrees_run [OF this assms(1)] l
  have "cache s K = Some \<lparr>data = d1, timestamp = t1\<rparr>"
    by (simp add: cache_agrees_def entry_of_def)
  with assms(3,4) t have h: "step now (Request rid K) s =
             Some (s\<lparr>clock := now,
                      responses := responses s @ [(rid, \<lparr>status = 200, body = Json d1\<rparr>)]\<rparr>)"
    by (simp add: step_def proxyRequest_def respond_def)
  have "t1 = t \<and> d1 = d"
    if "trace s = pre @ Finished t rid0 K (Resolved st d) # post"
      and "\<forall>ob \<in> set post. success_of K ob = None" for pre post
    using l last_success_at [OF that(2), of pre t rid0 st d] that(1) by simp
  with l t h show ?thesis by blast
qed

theorem cache_hit_witness:
  "run [(10000, Request 1 ''/seasons/now?limit=24''),
        (10300, UpstreamReply 0 (Resolved 200 ''winter''))] init_state \<noteq> None \<and>
   Finished 10300 1 ''/seasons/now?limit=24'' (Resolved 200 ''winter'') \<in> set
     (trace (the (run [(10000, Request 1 ''/seasons/now?limit=24''),
        (10300, UpstreamReply 0 (Resolved 200 ''winter''))] init_state))) \<and>
   step 310299 (Request 2 ''/seasons/now?limit=24'')
     (the (run [(10000, Request 1 ''/seasons/now?limit=24''),
        (10300, UpstreamReply 0 (Resolved 200 ''winter''))] init_state)) =
     Some ((the (run [(10000, Request 1 ''/seasons/now?limit=24''),
        (10300, UpstreamReply 0 (Resolved 200 ''winter''))] init_state))
        \<lparr>clock := 310299,
          responses := [(1, \<lparr>status = 200, body = Json ''winter''\<rparr>),
                        (2, \<lparr>status = 200, body = Json ''winter''\<rparr>)]\<rparr>)"
proof -
  let ?K = "''/seasons/now?limit=24''"
  obtain s where r: "run [(10000, Request 1 ?K),
        (10300, UpstreamReply 0 (Resolved 200 ''winter''))] init_state = Some s"
    and f: "Finished 10300 1 ?K (Resolved 200 ''winter'') \<in> set (trace s)"
    and tr: "trace s = [Enqueued 10000 1 ?K, Started 10000 (Worker 1) (Jikan ?K)] @
                Finished 10300 1 ?K (Resolved 200 ''winter'') # []"
    and c: "clock s \<le> 310299"
    and p: "responses s = [(1, \<lparr>status = 200, body = Json ''winter''\<rparr>)]"
    by (simp add: exec_defs)
  from cache_hit [OF r f c, of 2] obtain t1 d1 where
    h: "step 310299 (Request 2 ?K) s =
          Some (s\<lparr>clock := 310299,
                   responses := responses s @ [(2, \<lparr>status = 200, body = Json d1\<rparr>)]\<rparr>)"
    and u: "\<forall>pre post.
              trace s = pre @ Finished 10300 1 ?K (Resolved 200 ''winter'') # post \<and>
              (\<forall>ob \<in> set post. success_of ?K ob = None) \<longrightarrow> t1 = 10300 \<and> d1 = ''winter''"
    by (auto simp: CACHE_DURATION_def)
  from u tr have "d1 = ''winter''"
    by (metis empty_iff list.set(1))
  with h r f p show ?thesis
    by simp
qed

text \<open>
  Claim C2 as stated fails: three requests for one endpoint before the first answer, the
  calls answered \<open>a\<close>, \<open>b\<close> and \<open>c\<close>. A fourth request 2300 ms after the success that
  stored \<open>a\<close> makes no upstream call and is answered \<open>c\<close>.
\<close>

theorem cache_hit_latest_payload:
  "run [(10000, Request 1 ''/seasons/now?limit=24''),
        (10100, Request 2 ''/seasons/now?limit=24''),
        (10200, Request 3 ''/seasons/now?limit=24''),
        (10300, UpstreamReply 0 (Resolved 200 ''a'')), (11300, TimerFired 0),
        (11400, UpstreamReply 0 (Resolved 200 ''b'')), (12400, TimerFired 0),
        (12500, UpstreamReply 0 (Resolved 200 ''c'')),
        (12600, Request 4 ''/seasons/now?limit=24'')] init_state \<noteq> None \<and>
   trace (the (run [(10000, Request 1 ''/seasons/now?limit=24''),
        (10100, Request 2 ''/seasons/now?limit=24''),
        (10200, Request 3 ''/seasons/now?limit=24''),
        (10300, UpstreamReply 0 (Resolved 200 ''a'')), (11300, TimerFired 0),
        (11400, UpstreamReply 0 (Resolved 200 ''b'')), (12400, TimerFired 0),
        (12500, UpstreamReply 0 (Resolved 200 ''c'')),
        (12600, Request 4 ''/seasons/now?limit=24'')] init_state)) =
     [Enqueued 10000 1 ''/seasons/now?limit=24'',
      Started 10000 (Worker 1) (Jikan ''/seasons/now?limit=24''),
      Enqueued 10100 2 ''/seasons/now?limit=24'',
      Enqueued 10200 3 ''/seasons/now?limit=24'',
      Finished 10300 1 ''/seasons/now?limit=24'' (Resolved 200 ''a''),
      Started 11300 (Worker 2) (Jikan ''/seasons/now?limit=24''),
      Finished 11400 2 ''/seasons/now?limit=24'' (Resolved 200 ''b''),
      Started 12400 (Worker 3) (Jikan ''/seasons/now?limit=24''),
      Finished 12500 3 ''/seasons/now?limit=24'' (Resolved 200 ''c'')] \<and>
   responses (the (run [(10000, Request 1 ''/seasons/now?limit=24''),
        (10100, Request 2 ''/seasons/now?limit=24''),
        (10200, Request 3 ''/seasons/now?limit=24''),
        (10300, UpstreamReply 0 (Resolved 200 ''a'')), (11300, TimerFired 0),
        (11400, UpstreamReply 0 (Resolved 200 ''b'')), (12400, TimerFired 0),
        (12500, UpstreamReply 0 (Resolved 200 ''c'')),
        (12600, Request 4 ''/seasons/now?limit=24'')] init_state)) =
     [(1, \<lparr>status = 200, body = Json ''a''\<rparr>), (2, \<lparr>status = 200, body = Json ''b''\<rparr>),
      (3, \<lparr>status = 200, body = Json ''c''\<rparr>), (4, \<lparr>status = 200, body = Json ''c''\<rparr>)]"
  by (simp add: exec_defs)


subsection \<open>A queued request leaves the queue only by being called\<close>


















subsection \<open>Concurrent requests for one endpoint\<close>

lemma worker_calls_for_le_1:
  assumes "wf s"
  shows "length (worker_calls_for K s) \<le> 1"
proof -
  have "worker_calls_for K s = filter (\<lambda>x. awaits_call_for K (snd x)) (worker_tasks s)"
    unfolding worker_calls_for_def worker_tasks_def filter_filter
    by (intro filter_cong) (auto elim: awaits_call_for.elims)
  with worker_tasks_le_1 [OF assms] le_trans [OF length_filter_le] show ?thesis
    by simp
qed

lemma miss_is_queued:
  assumes "clock s \<le> now" and "\<not> fresh s K now"
  shows "\<exists>s'. step now (Request rid K) s = Some s' \<and>
           (\<lparr>endpoint = K, res = rid\<rparr> \<in> set (queue s') \<or>
            (\<exists>tid. (tid, WUpstream \<lparr>endpoint = K, res = rid\<rparr>) \<in> set (tasks s')))"
  using assms
  by (cases "queue s")
     (auto simp: fresh_def step_def Let_def proxyRequest_def enqueue_def processQueue_def
        worker_loop_def worker_issue_def suspend_def observe_def
        split: option.splits)

lemma three_fetches_run:
  "run (three_fetches K d1 d2 d3) init_state \<noteq> None \<and>
   length (filter (call_for K) (trace (the (run (three_fetches K d1 d2 d3) init_state)))) = 3 \<and>
   responses (the (run (three_fetches K d1 d2 d3) init_state)) =
     [(1, \<lparr>status = 200, body = Json d1\<rparr>), (2, \<lparr>status = 200, body = Json d2\<rparr>),
      (3, \<lparr>status = 200, body = Json d3\<rparr>)]"
  by (simp add: three_fetches_def exec_defs)

text \<open>
  Claim C1, as amended. For every endpoint \<open>K\<close>, in every reachable state at most one
  upstream call of the queue worker for \<open>K\<close> is in flight. Requests for \<open>K\<close> are not
  coalesced: a request that finds no fresh cache entry is put on the queue as an item of
  its own (or is the call the worker starts at once), also while a call for \<open>K\<close> is in
  flight. So three requests for \<open>K\<close> made before the first answer lead to three upstream
  calls for \<open>K\<close>, one after the other, and each client is sent the body of its own
  call.
\<close>

theorem no_coalescing:
  assumes "run evs init_state = Some s"
  shows "length (worker_calls_for K s) \<le> 1 \<and>
         (\<forall>now rid. clock s \<le> now \<and> \<not> fresh s K now \<longrightarrow>
            (\<exists>s'. step now (Request rid K) s = Some s' \<and>
               (\<lparr>endpoint = K, res = rid\<rparr> \<in> set (queue s') \<or>
                (\<exists>tid. (tid, WUpstream \<lparr>endpoint = K, res = rid\<rparr>) \<in> set (tasks s'))))) \<and>
         (\<forall>d1 d2 d3.
            run (three_fetches K d1 d2 d3) init_state \<noteq> None \<and>
            length (filter (call_for K) (trace (the (run (three_fetches K d1 d2 d3) init_state)))) = 3 \<and>
            responses (the (run (three_fetches K d1 d2 d3) init_state)) =
              [(1, \<lparr>status = 200, body = Json d1\<rparr>), (2, \<lparr>status = 200, body = Json d2\<rparr>),
               (3, \<lparr>status = 200, body = Json d3\<rparr>)])"
  using worker_calls_for_le_1 [OF wf_reachable [OF assms]] miss_is_queued three_fetches_run
  by blast

theorem no_coalescing_witness:
  "run [(10000, Request 1 ''/seasons/now?limit=24''),
        (10100, Request 2 ''/seasons/now?limit=24'')] init_state \<noteq> None \<and>
   length (worker_calls_for ''/seasons/now?limit=24''
     (the (run [(10000, Request 1 ''/seasons/now?limit=24''),
                (10100, Request 2 ''/seasons/now?limit=24'')] init_state))) \<le> 1 \<and>
   step 10200 (Request 3 ''/seasons/now?limit=24'')
     (the (run [(10000, Request 1 ''/seasons/now?limit=24''),
                (10100, Request 2 ''/seasons/now?limit=24'')] init_state)) \<noteq> None \<and>
   queue (the (step 10200 (Request 3 ''/seasons/now?limit=24'')
     (the (run [(10000, Request 1 ''/seasons/now?limit=24''),
                (10100, Request 2 ''/seasons/now?limit=24'')] init_state)))) =
     [\<lparr>endpoint = ''/seasons/now?limit=24'', res = 2\<rparr>,
      \<lparr>endpoint = ''/seasons/now?limit=24'', res = 3\<rparr>]"
proof -
  obtain s where r: "run [(10000, Request 1 ''/seasons/now?limit=24''),
        (10100, Request 2 ''/seasons/now?limit=24'')] init_state = Some s"
    and c: "clock s \<le> 10200" and f: "\<not> fresh s ''/seasons/now?limit=24'' 10200"
    and q: "queue (the (step 10200 (Request 3 ''/seasons/now?limit=24'') s)) =
     [\<lparr>endpoint = ''/seasons/now?limit=24'', res = 2\<rparr>,
      \<lparr>endpoint = ''/seasons/now?limit=24'', res = 3\<rparr>]"
    by (simp add: exec_defs fresh_def)
  note n = no_coalescing [OF r, of "''/seasons/now?limit=24''"]
  from n have "length (worker_calls_for ''/seasons/now?limit=24'' s) \<le> 1"
    by (rule conjunct1)
  moreover from n c f have "\<exists>s'. step 10200 (Request 3 ''/seasons/now?limit=24'') s = Some s'"
    by blast
  then have "step 10200 (Request 3 ''/seasons/now?limit=24'') s \<noteq> None"
    by auto
  ultimately
  have "length (worker_calls_for ''/seasons/now?limit=24'' s) \<le> 1"
    and "step 10200 (Request 3 ''/seasons/now?limit=24'') s \<noteq> None"
    by simp_all
  with r q show ?thesis by simp
qed

text \<open>
  Claim C1 as stated fails: three requests for \<open>/seasons/now?limit=24\<close> within 200 ms and
  one upstream answer. When the gate timer fires the worker starts a second upstream
  call for the same endpoint, although the cache holds the first answer; two calls have
  been made, and only the first client has been answered.
\<close>

theorem three_fetches_two_calls:
  "run [(10000, Request 1 ''/seasons/now?limit=24''),
        (10100, Request 2 ''/seasons/now?limit=24''),
        (10200, Request 3 ''/seasons/now?limit=24''),
        (10300, UpstreamReply 0 (Resolved 200 ''{data:[...]}'')),
        (11300, TimerFired 0)] init_state \<noteq> None \<and>
   length (filter (call_for ''/seasons/now?limit=24'')
     (trace (the (run [(10000, Request 1 ''/seasons/now?limit=24''),
        (10100, Request 2 ''/seasons/now?limit=24''),
        (10200, Request 3 ''/seasons/now?limit=24''),
        (10300, UpstreamReply 0 (Resolved 200 ''{data:[...]}'')),
        (11300, TimerFired 0)] init_state)))) = 2 \<and>
   responses (the (run [(10000, Request 1 ''/seasons/now?limit=24''),
        (10100, Request 2 ''/seasons/now?limit=24''),
        (10200, Request 3 ''/seasons/now?limit=24''),
        (10300, UpstreamReply 0 (Resolved 200 ''{data:[...]}'')),
        (11300, TimerFired 0)] init_state)) =
     [(1, \<lparr>status = 200, body = Json ''{data:[...]}''\<rparr>)]"
  by (simp add: exec_defs)


subsection \<open>Retry after a 429\<close>

lemma run_append:
  "run (xs @ ys) s = (case run xs s of None \<Rightarrow> None | Some s' \<Rightarrow> run ys s')"
  by (induction xs arbitrary: s) (auto split: option.splits)

lemma run_single: "step now ev s = Some s' \<Longrightarrow> run [(now, ev)] s = Some s'"
  by simp

lemma run_cons:
  "step now ev s = Some s1 \<Longrightarrow> run evs s1 = Some s' \<Longrightarrow> run ((now, ev) # evs) s = Some s'"
  by simp

lemma wf_flag: "wf s \<Longrightarrow> worker_tasks s \<noteq> [] \<Longrightarrow> isProcessingQueue s"
  using flag_iff_worker by blast

lemma wf_map_of: "wf s \<Longrightarrow> (tid, p) \<in> set (tasks s) \<Longrightarrow> map_of (tasks s) tid = Some p"
  by (simp add: wf_def)

lemma worker_tasks_mem: "worker_tasks s = [w] \<Longrightarrow> w \<in> set (tasks s)"
proof -
  assume "worker_tasks s = [w]"
  then have "w \<in> set (filter (\<lambda>x. is_worker (snd x)) (tasks s))"
    by (simp add: worker_tasks_def)
  then show ?thesis by simp
qed

lemma trace_extends_worker_loop:
  "trace s0 = trace s @ pre \<Longrightarrow> \<exists>ext. trace (worker_loop now tid s0) = trace s @ ext"
  by (simp add: worker_loop_def worker_issue_def suspend_def observe_def Let_def split: list.splits)

lemma trace_extends_step:
  assumes "step now ev s = Some s'"
  shows "\<exists>ext. trace s' = trace s @ ext"
proof (cases ev)
  case (Request rid ep)
  let ?e = "s\<lparr>clock := now, queue := queue s @ [\<lparr>endpoint = ep, res = rid\<rparr>],
              trace := trace s @ [Enqueued now rid ep]\<rparr>"
  have "\<exists>ext. trace (worker_loop now tid
           (?e\<lparr>isProcessingQueue := True, next_tid := Suc (next_tid s)\<rparr>)) = trace s @ ext" for tid
    by (rule trace_extends_worker_loop [where pre = "[Enqueued now rid ep]"]) simp
  with assms Request show ?thesis
    by (auto simp: step_def Let_def proxyRequest_def enqueue_def processQueue_def respond_def
        observe_def split: if_splits option.splits)
next
  case (Watch rid a p)
  with assms show ?thesis
    by (auto simp: step_def Let_def handler_start_def direct_call_def suspend_def observe_def
        split: if_splits)
next
  case (Episodes rid a)
  with assms show ?thesis
    by (auto simp: step_def Let_def handler_start_def direct_call_def suspend_def observe_def
        split: if_splits)
next
  case (TimerFired tid)
  have "\<exists>ext. trace (worker_loop now tid (remove_task tid (s\<lparr>clock := now\<rparr>))) = trace s @ ext"
    by (rule trace_extends_worker_loop [where pre = "[]"]) (simp add: remove_task_def)
  with assms TimerFired show ?thesis
    by (auto simp: step_def Let_def worker_issue_def suspend_def observe_def remove_task_def
        split: if_splits option.splits pc.splits list.splits)
next
  case (UpstreamReply tid r)
  with assms obtain it where m: "map_of (tasks s) tid = Some (WUpstream it)"
    and s': "s' = worker_reply now tid it r (remove_task tid (s\<lparr>clock := now\<rparr>))"
    by (auto simp: step_def Let_def split: if_splits option.splits pc.splits)
  have "\<exists>ext. trace (worker_loop now tid s0) = trace s @ ext"
    if "trace s0 = trace s @ [Finished now (res it) (endpoint it) r]" for s0
    using that by (rule trace_extends_worker_loop)
  then show ?thesis
    unfolding s'
    by (cases r)
       (auto simp: worker_reply_def Let_def suspend_def observe_def respond_def remove_task_def)
next
  case (HandlerReply tid h)
  with assms show ?thesis
    by (auto simp: step_def Let_def handler_reply_def direct_call_def suspend_def observe_def
        respond_def remove_task_def split: if_splits option.splits pc.splits hreply.splits stage.splits)
qed

lemma trace_extends_run: "run evs s = Some s' \<Longrightarrow> \<exists>ext. trace s' = trace s @ ext"
proof (induction evs arbitrary: s)
  case Nil
  then show ?case by simp
next
  case (Cons e evs)
  obtain now ev where e: "e = (now, ev)" by (cases e)
  with Cons.prems obtain s1 where s1: "step now ev s = Some s1" and r: "run evs s1 = Some s'"
    by (auto split: option.splits)
  from trace_extends_step [OF s1] Cons.IH [OF r] show ?case
    by auto
qed

text \<open>While the only worker sleeps on a timer, no event but that timer touches it.\<close>

lemma asleep_step:
  assumes w: "wf s" and b: "worker_tasks s = [(tid, p)]" and a: "\<not> awaits_upstream p"
    and q: "queue s = it # rest"
    and st: "step now ev s = Some s'" and ne: "ev \<noteq> TimerFired tid"
  shows "worker_tasks s' = [(tid, p)] \<and> (\<exists>rest'. queue s' = it # rest') \<and>
         filter worker_obs (trace s') = filter worker_obs (trace s) \<and>
         lastRequestTime s' = lastRequestTime s"
proof -
  from st have c: "clock s \<le> now"
    by (simp add: step_def split: if_splits)
  from w b have f: "isProcessingQueue s"
    by (intro wf_flag) simp_all
  show ?thesis
  proof (cases ev)
    case (Request rid ep)
    with st c b q f show ?thesis
      by (auto simp: step_def Let_def proxyRequest_def enqueue_def processQueue_def respond_def
          observe_def worker_tasks_def split: option.splits if_splits)
  next
    case (Watch rid a p)
    with st c b q show ?thesis
      by (auto simp: step_def Let_def handler_start_def direct_call_def suspend_def observe_def
          worker_tasks_def)
  next
    case (Episodes rid a)
    with st c b q show ?thesis
      by (auto simp: step_def Let_def handler_start_def direct_call_def suspend_def observe_def
          worker_tasks_def)
  next
    case (TimerFired tid')
    with st c obtain p' where m: "map_of (tasks s) tid' = Some p'" and iw: "is_worker p'"
      by (auto simp: step_def Let_def split: option.splits pc.splits if_splits)
    from take_worker(2) [OF w m iw c] b TimerFired ne show ?thesis
      by simp
  next
    case (UpstreamReply tid' r)
    with st c obtain it' where m: "map_of (tasks s) tid' = Some (WUpstream it')"
      by (auto simp: step_def Let_def split: option.splits pc.splits if_splits)
    from take_worker(2) [OF w m _ c] b a show ?thesis
      by simp
  next
    case (HandlerReply tid' h)
    with st c obtain sg k rid tg where m: "map_of (tasks s) tid' = Some (Handler sg k rid tg)"
      by (auto simp: step_def Let_def split: option.splits pc.splits if_splits)
    from take_handler(1) [OF w m] b
    have "filter (\<lambda>x. is_worker (snd x)) (filter (\<lambda>x. fst x \<noteq> tid') (tasks s)) = [(tid, p)]"
      by (simp add: worker_tasks_def remove_task_def)
    with st c q m HandlerReply show ?thesis
      by (auto simp: step_def Let_def handler_reply_def direct_call_def suspend_def observe_def
          respond_def remove_task_def worker_tasks_def split: hreply.splits stage.splits)
  qed
qed

lemma asleep_run:
  assumes "run evs s = Some s'" and "\<forall>e \<in> set evs. snd e \<noteq> TimerFired tid"
    and "wf s" and "worker_tasks s = [(tid, p)]" and "\<not> awaits_upstream p"
    and "queue s = it # rest"
  shows "wf s' \<and> worker_tasks s' = [(tid, p)] \<and> (\<exists>rest'. queue s' = it # rest') \<and>
         filter worker_obs (trace s') = filter worker_obs (trace s) \<and>
         lastRequestTime s' = lastRequestTime s"
  using assms
proof (induction evs arbitrary: s rest)
  case Nil
  then show ?case by simp
next
  case (Cons e evs)
  obtain now ev where e: "e = (now, ev)" by (cases e)
  with Cons.prems(1) obtain s1 where s1: "step now ev s = Some s1" and r: "run evs s1 = Some s'"
    by (auto split: option.splits)
  from Cons.prems(2) e have ne: "ev \<noteq> TimerFired tid" by simp
  from asleep_step [OF Cons.prems(3,4,5,6) s1 ne] obtain rest1 where
    b1: "worker_tasks s1 = [(tid, p)]" and q1: "queue s1 = it # rest1"
    and t1: "filter worker_obs (trace s1) = filter worker_obs (trace s)"
    and l1: "lastRequestTime s1 = lastRequestTime s"
    by blast
  from Cons.prems(2) have "\<forall>e \<in> set evs. snd e \<noteq> TimerFired tid" by simp
  from Cons.IH [OF r this wf_step [OF Cons.prems(3) s1] b1 Cons.prems(5) q1] t1 l1 show ?case
    by simp
qed

text \<open>
  When the timer of the sleeping worker fires, the worker either starts the call for
  the head of the queue or, waking from a back-off too soon after \<open>lastRequestTime\<close>,
  sleeps once more at the gate.
\<close>

lemma wake_step:
  assumes w: "wf s" and b: "worker_tasks s = [(tid, p)]" and a: "\<not> awaits_upstream p"
    and q: "queue s = it # rest"
    and st: "step now (TimerFired tid) s = Some s'"
  shows "(if (\<exists>due. p = WBackoff due) \<and> now - lastRequestTime s < RATE_LIMIT_DELAY
          then worker_tasks s' = [(tid, WGate (lastRequestTime s + RATE_LIMIT_DELAY))] \<and>
               queue s' = it # rest \<and> trace s' = trace s
          else (tid, WUpstream it) \<in> set (tasks s') \<and> queue s' = rest \<and>
               trace s' = trace s @ [Started now (Worker (res it)) (Jikan (endpoint it))])"
proof -
  from st have c: "clock s \<le> now"
    by (simp add: step_def split: if_splits)
  have m: "map_of (tasks s) tid = Some p"
    using w worker_tasks_mem [OF b] by (rule wf_map_of)
  from b have iw: "is_worker p"
    using worker_tasks_mem [OF b] filter_set [of "\<lambda>x. is_worker (snd x)" "tasks s"]
    by (metis (mono_tags, lifting) filter_eq_Cons_iff snd_conv worker_tasks_def)
  note t = take_worker [OF w m iw c]
  from t(1) have e: "filter (\<lambda>x. is_worker (snd x)) (filter (\<lambda>x. fst x \<noteq> tid) (tasks s)) = []"
    by (simp add: running_def worker_tasks_def remove_task_def)
  show ?thesis
  proof (cases p)
    case (WGate due)
    with st c m q show ?thesis
      by (auto simp: step_def Let_def worker_issue_def suspend_def observe_def remove_task_def)
  next
    case (WBackoff due)
    with st c m q e show ?thesis
      by (auto simp: step_def Let_def worker_loop_def worker_issue_def suspend_def observe_def
          remove_task_def worker_tasks_def)
  next
    case (WUpstream x)
    with a show ?thesis by simp
  next
    case (Handler sg k rid tg)
    with iw show ?thesis by simp
  qed
qed

lemma next_call_step:
  assumes w: "wf s" and b: "worker_tasks s = [(tid, p)]" and a: "\<not> awaits_upstream p"
    and q: "queue s = it # rest"
    and st: "step now ev s = Some s'"
  shows "((\<exists>p' rest'. worker_tasks s' = [(tid, p')] \<and> \<not> awaits_upstream p' \<and> queue s' = it # rest') \<and>
          filter worker_obs (trace s') = filter worker_obs (trace s)) \<or>
         filter worker_obs (trace s') =
           filter worker_obs (trace s) @ [Started now (Worker (res it)) (Jikan (endpoint it))]"
proof (cases "ev = TimerFired tid")
  case True
  with st have "step now (TimerFired tid) s = Some s'" by simp
  note k = wake_step [OF w b a q this]
  show ?thesis
  proof (cases "(\<exists>due. p = WBackoff due) \<and> now - lastRequestTime s < RATE_LIMIT_DELAY")
    case True
    with k have "worker_tasks s' = [(tid, WGate (lastRequestTime s + RATE_LIMIT_DELAY))]"
      and "queue s' = it # rest" and "trace s' = trace s"
      by simp_all
    then show ?thesis by simp
  next
    case False
    with k have "trace s' = trace s @ [Started now (Worker (res it)) (Jikan (endpoint it))]"
      by simp
    then show ?thesis by simp
  qed
next
  case False
  from asleep_step [OF w b a q st False] a show ?thesis
    by blast
qed

lemma next_call_run:
  assumes "run evs s = Some s'"
    and "wf s" and "worker_tasks s = [(tid, p)]" and "\<not> awaits_upstream p"
    and "queue s = it # rest"
  shows "filter worker_obs (trace s') = filter worker_obs (trace s) \<or>
         (\<exists>t'' more. filter worker_obs (trace s') =
            filter worker_obs (trace s) @ Started t'' (Worker (res it)) (Jikan (endpoint it)) # more)"
  using assms
proof (induction evs arbitrary: s p rest)
  case Nil
  then show ?case by simp
next
  case (Cons e evs)
  obtain now ev where e: "e = (now, ev)" by (cases e)
  with Cons.prems(1) obtain s1 where s1: "step now ev s = Some s1" and r: "run evs s1 = Some s'"
    by (auto split: option.splits)
  from next_call_step [OF Cons.prems(2,3,4,5) s1]
  consider p' rest' where "worker_tasks s1 = [(tid, p')]" "\<not> awaits_upstream p'"
      "queue s1 = it # rest'" "filter worker_obs (trace s1) = filter worker_obs (trace s)"
    | "filter worker_obs (trace s1) =
         filter worker_obs (trace s) @ [Started now (Worker (res it)) (Jikan (endpoint it))]"
    by blast
  then show ?case
  proof cases
    case 1
    from Cons.IH [OF r wf_step [OF Cons.prems(2) s1] 1(1,2,3)] 1(4) show ?thesis
      by simp
  next
    case 2
    from trace_extends_run [OF r] obtain ext where "trace s' = trace s1 @ ext" ..
    with 2 show ?thesis by simp
  qed
qed

text \<open>
  Claim C4, as amended. In a reachable state where the worker awaits the call of the
  item \<open>it\<close>, let the call be rejected with status 429 at time \<open>t\<close>. The step puts \<open>it\<close>
  back at the head of the queue, sends nothing to the client, leaves \<open>lastRequestTime\<close>
  alone and leaves the worker asleep on a timer set for exactly \<open>RATE_LIMIT_DELAY\<close>
  after \<open>t\<close>. Whatever events follow, the next call the worker starts, if it starts one,
  is the call for \<open>it\<close>: no other queued item is processed in between. When the timer
  fires at a time at least \<open>RATE_LIMIT_DELAY\<close> after \<open>lastRequestTime\<close> (so whenever it
  fires \<open>RATE_LIMIT_DELAY\<close> or more after \<open>t\<close>), the call for \<open>it\<close> starts in that very
  step. In the scenario with \<open>A\<close> and \<open>B\<close> and timers on time, the worker's calls are,
  in order, \<open>A\<close> ending with 429, \<open>A\<close> ending in success, then \<open>B\<close>.
\<close>

theorem throttled_retry:
  assumes reach: "run evs init_state = Some s"
    and await: "map_of (tasks s) tid = Some (WUpstream it)"
    and thr: "step t (UpstreamReply tid (Rejected m (Some 429))) s = Some s1"
  shows "queue s1 = it # queue s \<and>
         (tid, WBackoff (t + RATE_LIMIT_DELAY)) \<in> set (tasks s1) \<and>
         responses s1 = responses s \<and>
         lastRequestTime s1 = lastRequestTime s \<and> lastRequestTime s \<le> t \<and>
         trace s1 = trace s @ [Finished t (res it) (endpoint it) (Rejected m (Some 429))] \<and>
         (\<forall>evs' s'. run evs' s1 = Some s' \<longrightarrow>
            filter worker_obs (trace s') = filter worker_obs (trace s1) \<or>
            (\<exists>t'' more. filter worker_obs (trace s') =
               filter worker_obs (trace s1) @
                 Started t'' (Worker (res it)) (Jikan (endpoint it)) # more)) \<and>
         (\<forall>mid s2 t' s3.
            run mid s1 = Some s2 \<and> (\<forall>e \<in> set mid. snd e \<noteq> TimerFired tid) \<and>
            step t' (TimerFired tid) s2 = Some s3 \<and>
            RATE_LIMIT_DELAY \<le> t' - lastRequestTime s \<longrightarrow>
            (tid, WUpstream it) \<in> set (tasks s3) \<and>
            filter worker_obs (trace s3) =
              filter worker_obs (trace s1) @
                [Started t' (Worker (res it)) (Jikan (endpoint it))]) \<and>
         (\<forall>A B m d.
            filter worker_obs (trace (the (run (throttled_once A B m d) init_state))) =
              [Started 10000 (Worker 1) (Jikan A),
               Finished 10300 1 A (Rejected m (Some 429)),
               Started 11300 (Worker 1) (Jikan A),
               Finished 11600 1 A (Resolved 200 d),
               Started 12600 (Worker 2) (Jikan B)])"
proof -
  have w: "wf s" using reach by (rule wf_reachable)
  from thr have c: "clock s \<le> t"
    by (simp add: step_def split: if_splits)
  note tw = take_worker [OF w await _ c, simplified]
  from w c have l: "lastRequestTime s \<le> t"
    by (simp add: wf_def)
  from thr await c have s1: "s1 = suspend tid (WBackoff (t + RATE_LIMIT_DELAY))
      ((observe (Finished t (res it) (endpoint it) (Rejected m (Some 429)))
         (remove_task tid (s\<lparr>clock := t\<rparr>)))\<lparr>queue := it # queue s\<rparr>)"
    by (simp add: step_def Let_def worker_reply_def observe_def remove_task_def)
  have w1: "wf s1" using w thr by (rule wf_step)
  have b1: "worker_tasks s1 = [(tid, WBackoff (t + RATE_LIMIT_DELAY))]"
    using tw(1) by (simp add: s1 running_def worker_tasks_def suspend_def observe_def remove_task_def)
  have q1: "queue s1 = it # queue s"
    by (simp add: s1 suspend_def observe_def remove_task_def)
  have t1: "trace s1 = trace s @ [Finished t (res it) (endpoint it) (Rejected m (Some 429))]"
    and l1: "lastRequestTime s1 = lastRequestTime s" and r1: "responses s1 = responses s"
    by (simp_all add: s1 suspend_def observe_def remove_task_def)
  have k1: "(tid, WBackoff (t + RATE_LIMIT_DELAY)) \<in> set (tasks s1)"
    by (simp add: s1 suspend_def)
  have nx: "filter worker_obs (trace s') = filter worker_obs (trace s1) \<or>
            (\<exists>t'' more. filter worker_obs (trace s') =
               filter worker_obs (trace s1) @
                 Started t'' (Worker (res it)) (Jikan (endpoint it)) # more)"
    if "run evs' s1 = Some s'" for evs' s'
    using next_call_run [OF that w1 b1 _ q1] by simp
  have pu: "(tid, WUpstream it) \<in> set (tasks s3) \<and>
            filter worker_obs (trace s3) =
              filter worker_obs (trace s1) @ [Started t' (Worker (res it)) (Jikan (endpoint it))]"
    if mid: "run mid s1 = Some s2" and nofire: "\<forall>e \<in> set mid. snd e \<noteq> TimerFired tid"
      and fire: "step t' (TimerFired tid) s2 = Some s3"
      and late: "RATE_LIMIT_DELAY \<le> t' - lastRequestTime s" for mid s2 t' s3
  proof -
    from asleep_run [OF mid nofire w1 b1 _ q1] obtain rest2 where
      w2: "wf s2" and b2: "worker_tasks s2 = [(tid, WBackoff (t + RATE_LIMIT_DELAY))]"
      and q2: "queue s2 = it # rest2"
      and t2: "filter worker_obs (trace s2) = filter worker_obs (trace s1)"
      and l2: "lastRequestTime s2 = lastRequestTime s1"
      by auto
    from late l1 l2 have "\<not> t' - lastRequestTime s2 < RATE_LIMIT_DELAY"
      by simp
    with wake_step [OF w2 b2 _ q2 fire] t2 show ?thesis
      by simp
  qed
  have sc: "filter worker_obs (trace (the (run (throttled_once A B m d) init_state))) =
              [Started 10000 (Worker 1) (Jikan A),
               Finished 10300 1 A (Rejected m (Some 429)),
               Started 11300 (Worker 1) (Jikan A),
               Finished 11600 1 A (Resolved 200 d),
               Started 12600 (Worker 2) (Jikan B)]" for A B m d
    by (simp add: throttled_once_def exec_defs)
  from q1 k1 r1 l1 l t1 nx pu sc show ?thesis
    by blast
qed


theorem throttled_retry_witness:
  "run [(10000, Request 1 ''/top/anime?filter=airing&limit=24''),
        (10010, Request 2 ''/seasons/now?limit=24'')] init_state \<noteq> None \<and>
   run [(10300, UpstreamReply 0 (Rejected ''Request failed with status code 429'' (Some 429))),
        (10500, Request 3 ''/anime/1/full''),
        (11300, TimerFired 0)]
     (the (run [(10000, Request 1 ''/top/anime?filter=airing&limit=24''),
                (10010, Request 2 ''/seasons/now?limit=24'')] init_state)) \<noteq> None \<and>
   filter worker_obs (trace (the
     (run [(10300, UpstreamReply 0 (Rejected ''Request failed with status code 429'' (Some 429))),
           (10500, Request 3 ''/anime/1/full''),
           (11300, TimerFired 0)]
       (the (run [(10000, Request 1 ''/top/anime?filter=airing&limit=24''),
                  (10010, Request 2 ''/seasons/now?limit=24'')] init_state))))) =
     [Started 10000 (Worker 1) (Jikan ''/top/anime?filter=airing&limit=24''),
      Finished 10300 1 ''/top/anime?filter=airing&limit=24''
        (Rejected ''Request failed with status code 429'' (Some 429)),
      Started 11300 (Worker 1) (Jikan ''/top/anime?filter=airing&limit=24'')]"
proof -
  let ?A = "''/top/anime?filter=airing&limit=24''"
  let ?m = "''Request failed with status code 429''"
  let ?it = "\<lparr>endpoint = ?A, res = 1\<rparr>"
  let ?s = "the (run [(10000, Request 1 ?A), (10010, Request 2 ''/seasons/now?limit=24'')] init_state)"
  let ?s1 = "the (step 10300 (UpstreamReply 0 (Rejected ?m (Some 429))) ?s)"
  let ?s2 = "the (step 10500 (Request 3 ''/anime/1/full'') ?s1)"
  let ?s3 = "the (step 11300 (TimerFired 0) ?s2)"
  have r: "run [(10000, Request 1 ?A), (10010, Request 2 ''/seasons/now?limit=24'')] init_state = Some ?s"
    and a: "map_of (tasks ?s) 0 = Some (WUpstream ?it)"
    and t: "filter worker_obs (trace ?s) = [Started 10000 (Worker 1) (Jikan ?A)]"
    and l: "RATE_LIMIT_DELAY \<le> 11300 - lastRequestTime ?s"
    by (simp_all add: exec_defs)
  have s1: "step 10300 (UpstreamReply 0 (Rejected ?m (Some 429))) ?s = Some ?s1"
    by (simp add: exec_defs)
  have s2': "step 10500 (Request 3 ''/anime/1/full'') ?s1 = Some ?s2"
    by (simp add: exec_defs)
  have s3: "step 11300 (TimerFired 0) ?s2 = Some ?s3"
    by (simp add: exec_defs)
  have s2: "run [(10500, Request 3 ''/anime/1/full'')] ?s1 = Some ?s2"
    using s2' by (rule run_single)
  have n: "\<forall>e \<in> set [(10500, Request 3 ''/anime/1/full'')]. snd e \<noteq> TimerFired 0"
    by simp
  have fin: "run [(10300, UpstreamReply 0 (Rejected ?m (Some 429))), (10500, Request 3 ''/anime/1/full''),
        (11300, TimerFired 0)] ?s = Some ?s3"
    by (rule run_cons [OF s1], rule run_cons [OF s2'], rule run_single [OF s3])
  have c1: "run [(10000, Request 1 ?A), (10010, Request 2 ''/seasons/now?limit=24'')] init_state \<noteq> None"
    using r by (metis option.distinct(1))
  have c2: "run [(10300, UpstreamReply 0 (Rejected ?m (Some 429))), (10500, Request 3 ''/anime/1/full''),
        (11300, TimerFired 0)] ?s \<noteq> None"
    using fin by (metis option.distinct(1))
  have e: "the (run [(10300, UpstreamReply 0 (Rejected ?m (Some 429))), (10500, Request 3 ''/anime/1/full''),
        (11300, TimerFired 0)] ?s) = ?s3"
    using fin by (metis option.sel)
  note th = throttled_retry [OF r a s1]
  from th have v1: "trace ?s1 = trace ?s @ [Finished 10300 (res ?it) (endpoint ?it) (Rejected ?m (Some 429))]"
    by blast
  from th s2 n s3 l
  have v2: "filter worker_obs (trace ?s3) =
           filter worker_obs (trace ?s1) @
             [Started 11300 (Worker (res ?it)) (Jikan (endpoint ?it))]"
    by blast
  have c3: "filter worker_obs (trace (the (run [(10300, UpstreamReply 0 (Rejected ?m (Some 429))),
        (10500, Request 3 ''/anime/1/full''), (11300, TimerFired 0)] ?s))) =
     [Started 10000 (Worker 1) (Jikan ?A), Finished 10300 1 ?A (Rejected ?m (Some 429)),
      Started 11300 (Worker 1) (Jikan ?A)]"
    by (simp only: e v2 v1 filter_append filter.simps worker_obs.simps if_True t append.simps
        item.simps)
  from c1 c2 c3 show ?thesis
    by (intro conjI)
qed

text \<open>
  Claim C4 as stated fails: the retry comes when the timer fires, not exactly one
  spacing interval after the 429. Here the timer fires 999 ms after the 429 and the
  call is retried at once.
\<close>

theorem retry_after_999_ms:
  "run [(10000, Request 1 ''/top/anime?filter=airing&limit=24''),
        (10010, Request 2 ''/seasons/now?limit=24''),
        (10300, UpstreamReply 0 (Rejected ''Request failed with status code 429'' (Some 429))),
        (11299, TimerFired 0)] init_state \<noteq> None \<and>
   filter worker_obs
     (trace (the (run [(10000, Request 1 ''/top/anime?filter=airing&limit=24''),
        (10010, Request 2 ''/seasons/now?limit=24''),
        (10300, UpstreamReply 0 (Rejected ''Request failed with status code 429'' (Some 429))),
        (11299, TimerFired 0)] init_state))) =
     [Started 10000 (Worker 1) (Jikan ''/top/anime?filter=airing&limit=24''),
      Finished 10300 1 ''/top/anime?filter=airing&limit=24''
        (Rejected ''Request failed with status code 429'' (Some 429)),
      Started 11299 (Worker 1) (Jikan ''/top/anime?filter=airing&limit=24'')]"
  by (simp add: exec_defs)


subsection \<open>The gate keeps the worker's calls apart\<close>

lemma spaced_snoc:
  "spaced g (obs @ [ob]) \<longleftrightarrow>
     spaced g obs \<and>
     (\<forall>x \<in> set obs. case spacing_from x of None \<Rightarrow> True | Some t \<Rightarrow> starts_after g t ob)"
  by (induction obs) (auto split: option.splits)

lemma spaced_quiet: "worker_start ob = None \<Longrightarrow> spaced g (obs @ [ob]) = spaced g obs"
  by (simp add: spaced_snoc starts_after_def split: option.splits)

lemma spaced_start:
  "spaced g obs \<Longrightarrow> ends_before g now obs \<Longrightarrow> spaced g (obs @ [Started now (Worker rid) tg])"
  by (auto simp: spaced_snoc starts_after_def ends_before_def split: option.splits)

lemma spaced_nth:
  "spaced g tr \<Longrightarrow> i < j \<Longrightarrow> j < length tr \<Longrightarrow> spacing_from (tr ! i) = Some t \<Longrightarrow>
   worker_start (tr ! j) = Some t' \<Longrightarrow> t + g \<le> t'"
proof (induction tr arbitrary: i j)
  case Nil
  then show ?case by simp
next
  case (Cons ob obs)
  show ?case
  proof (cases i)
    case 0
    with Cons.prems obtain j' where j: "j = Suc j'" and l: "j' < length obs"
      by (cases j) auto
    from Cons.prems(1,4) 0 have "list_all (starts_after g t) obs"
      by simp
    with l have "starts_after g t (obs ! j')"
      by (simp add: list_all_length)
    with Cons.prems(5) j show ?thesis
      by (simp add: starts_after_def)
  next
    case (Suc i')
    with Cons.prems obtain j' where j: "j = Suc j'"
      by (cases j) auto
    from Cons.IH [of i' j'] Cons.prems Suc j show ?thesis
      by simp
  qed
qed

lemma end_ok_mono:
  assumes "end_ok g lrt clk ts ob" and "lrt \<le> lrt'" and "clk \<le> clk'"
    and "\<forall>tid due. (tid, WBackoff due) \<in> set ts \<longrightarrow>
           (tid, WBackoff due) \<in> set ts' \<or> due + g \<le> clk' + RATE_LIMIT_DELAY"
  shows "end_ok g lrt' clk' ts' ob"
proof (cases "spacing_from ob")
  case None
  then show ?thesis by (simp add: end_ok_def)
next
  case (Some t)
  with assms(1) consider "t \<le> lrt" | "t + g \<le> clk"
    | tid due where "(tid, WBackoff due) \<in> set ts" "t + RATE_LIMIT_DELAY \<le> due"
    by (auto simp: end_ok_def)
  then show ?thesis
  proof cases
    case 1
    with assms(2) Some show ?thesis by (simp add: end_ok_def)
  next
    case 2
    with assms(3) Some show ?thesis by (simp add: end_ok_def)
  next
    case 3
    from assms(4) 3(1) have "(tid, WBackoff due) \<in> set ts' \<or> due + g \<le> clk' + RATE_LIMIT_DELAY"
      by blast
    with 3(2) Some show ?thesis by (auto simp: end_ok_def)
  qed
qed

lemma ends_ok_mono:
  assumes "ends_ok g s" and "trace s' = trace s"
    and "lastRequestTime s \<le> lastRequestTime s'" and "clock s \<le> clock s'"
    and "\<forall>tid due. (tid, WBackoff due) \<in> set (tasks s) \<longrightarrow>
           (tid, WBackoff due) \<in> set (tasks s') \<or> due + g \<le> clock s' + RATE_LIMIT_DELAY"
  shows "ends_ok g s'"
  using assms unfolding ends_ok_def by (auto intro: end_ok_mono)

lemma ends_ok_observe:
  "ends_ok g s \<Longrightarrow> end_ok g (lastRequestTime s) (clock s) (tasks s) ob \<Longrightarrow> ends_ok g (observe ob s)"
  by (simp add: ends_ok_def observe_def)

lemma ends_ok_quiet: "ends_ok g s \<Longrightarrow> spacing_from ob = None \<Longrightarrow> ends_ok g (observe ob s)"
  by (simp add: ends_ok_observe end_ok_def)

lemma running_no_backoff: "running tid s \<Longrightarrow> (tid', WBackoff due) \<notin> set (tasks s)"
proof
  assume r: "running tid s" and m: "(tid', WBackoff due) \<in> set (tasks s)"
  then have "(tid', WBackoff due) \<in> set (worker_tasks s)"
    by (simp add: worker_tasks_def)
  with r show False by (simp add: running_def)
qed

lemma ends_before_intro:
  assumes "ends_ok g s" and "\<forall>tid due. (tid, WBackoff due) \<notin> set (tasks s)"
    and "lastRequestTime s + g \<le> now" and "clock s \<le> now"
  shows "ends_before g now (trace s)"
  unfolding ends_before_def
proof
  fix ob assume "ob \<in> set (trace s)"
  with assms(1) have "end_ok g (lastRequestTime s) (clock s) (tasks s) ob"
    by (simp add: ends_ok_def)
  with assms(2,3,4) show "case spacing_from ob of None \<Rightarrow> True | Some t \<Rightarrow> t + g \<le> now"
    by (auto simp: end_ok_def split: option.splits)
qed

lemma paced_worker_issue:
  assumes "ends_before g now (trace s)" and "spaced g (trace s)" and "clock s = now"
  shows "paced g (worker_issue now tid s)"
proof (cases "queue s")
  case Nil
  with assms show ?thesis
    by (auto simp: worker_issue_def paced_def ends_ok_def ends_before_def end_ok_def
        split: option.splits)
next
  case (Cons it rest)
  with assms show ?thesis
    by (auto simp: worker_issue_def paced_def ends_ok_def ends_before_def end_ok_def
        suspend_def observe_def spaced_start split: option.splits)
qed

lemma paced_worker_loop:
  assumes "running tid s" and "clock s = now" and "paced g s" and g: "g \<le> RATE_LIMIT_DELAY"
  shows "paced g (worker_loop now tid s)"
proof (cases "queue s = [] \<or> now - lastRequestTime s < RATE_LIMIT_DELAY")
  case True
  from assms(3) have "ends_ok g s" and sp: "spaced g (trace s)"
    by (simp_all add: paced_def)
  then have "ends_ok g (s\<lparr>isProcessingQueue := False\<rparr>)" and "ends_ok g (suspend tid p s)" for p
    by (auto elim!: ends_ok_mono simp: suspend_def)
  with True sp show ?thesis
    by (auto simp: worker_loop_def Let_def paced_def suspend_def)
next
  case False
  from assms(3) have e: "ends_ok g s" and sp: "spaced g (trace s)"
    by (simp_all add: paced_def)
  from False g have "lastRequestTime s + g \<le> now" by simp
  from ends_before_intro [OF e _ this] running_no_backoff [OF assms(1)] assms(2)
  have "ends_before g now (trace s)" by simp
  from paced_worker_issue [OF this sp assms(2)] False show ?thesis
    by (simp add: worker_loop_def Let_def)
qed

lemma paced_frame:
  "paced g s \<Longrightarrow> trace s' = trace s \<Longrightarrow> lastRequestTime s' = lastRequestTime s \<Longrightarrow>
   clock s' = clock s \<Longrightarrow> tasks s' = tasks s \<Longrightarrow> paced g s'"
  by (simp add: paced_def ends_ok_def)

lemma paced_quiet:
  "paced g s \<Longrightarrow> spacing_from ob = None \<Longrightarrow> worker_start ob = None \<Longrightarrow> paced g (observe ob s)"
  by (simp add: paced_def ends_ok_quiet) (simp add: observe_def spaced_quiet)

lemma paced_clock: "paced g s \<Longrightarrow> clock s \<le> now \<Longrightarrow> paced g (s\<lparr>clock := now\<rparr>)"
  unfolding paced_def by (auto elim!: ends_ok_mono)

lemma running_frame:
  "running tid s \<Longrightarrow> tasks s' = tasks s \<Longrightarrow> lastRequestTime s' = lastRequestTime s \<Longrightarrow>
   clock s' = clock s \<Longrightarrow> next_tid s' = next_tid s \<Longrightarrow> isProcessingQueue s' = isProcessingQueue s \<Longrightarrow>
   running tid s'"
  by (simp add: running_def worker_tasks_def)

lemma paced_proxyRequest:
  assumes w: "wf s" and p: "paced g s" and c: "clock s = now" and g: "g \<le> RATE_LIMIT_DELAY"
  shows "paced g (proxyRequest now rid ep s)"
proof -
  let ?e = "observe (Enqueued now rid ep) (s\<lparr>queue := queue s @ [\<lparr>endpoint = ep, res = rid\<rparr>]\<rparr>)"
  have "paced g (s\<lparr>queue := queue s @ [\<lparr>endpoint = ep, res = rid\<rparr>]\<rparr>)"
    using p by (rule paced_frame) simp_all
  then have e: "paced g ?e"
    by (rule paced_quiet) simp_all
  have "paced g (enqueue now rid ep s)"
  proof (cases "isProcessingQueue s")
    case True
    with e show ?thesis by (simp add: enqueue_def processQueue_def observe_def)
  next
    case False
    let ?g = "?e\<lparr>isProcessingQueue := True, next_tid := Suc (next_tid ?e)\<rparr>"
    have r: "running (next_tid s) ?g"
      using w False by (auto simp: wf_def running_def worker_tasks_def worker_ok_False observe_def)
    have "paced g ?g"
      using e by (rule paced_frame) simp_all
    from paced_worker_loop [OF r _ this g, of now] c False show ?thesis
      by (simp add: enqueue_def processQueue_def observe_def)
  qed
  moreover have "paced g (respond rid st b s)" for st b
    using p by (rule paced_frame) (simp_all add: respond_def)
  ultimately show ?thesis
    by (simp add: proxyRequest_def split: option.splits)
qed

lemma paced_direct_call:
  assumes "paced g s"
  shows "paced g (direct_call now sg k rid tg tid s)"
proof -
  have "paced g (observe (Started now (Direct rid) tg) s)"
    using assms by (rule paced_quiet) simp_all
  then show ?thesis
    unfolding paced_def direct_call_def
    by (auto elim!: ends_ok_mono simp: suspend_def)
qed

lemma paced_handler_start:
  assumes "paced g s"
  shows "paced g (handler_start now k rid a s)"
proof -
  have "paced g (s\<lparr>next_tid := Suc (next_tid s)\<rparr>)"
    using assms by (rule paced_frame) simp_all
  then show ?thesis
    by (simp add: handler_start_def paced_direct_call)
qed

lemma paced_remove_handler:
  assumes "wf s" and "paced g s" and "map_of (tasks s) tid = Some (Handler sg k rid tg)"
  shows "paced g (remove_task tid s)"
proof -
  have "(tid', WBackoff due) \<in> set (tasks (remove_task tid s))"
    if "(tid', WBackoff due) \<in> set (tasks s)" for tid' due
  proof -
    from assms(1) that have "map_of (tasks s) tid' = Some (WBackoff due)"
      by (simp add: wf_def)
    with assms(3) have "tid' \<noteq> tid" by auto
    with that show ?thesis by (simp add: remove_task_def)
  qed
  with assms(2) show ?thesis
    unfolding paced_def by (auto elim!: ends_ok_mono simp: remove_task_def)
qed

lemma paced_handler_reply:
  assumes "paced g s"
  shows "paced g (handler_reply now tid sg k rid tg h s)"
proof -
  have o: "paced g (observe (DirectFinished now rid tg) s)"
    using assms by (rule paced_quiet) simp_all
  then have "paced g (respond rid st b (observe (DirectFinished now rid tg) s))" for st b
    by (rule paced_frame) (simp_all add: respond_def)
  with o show ?thesis
    by (simp add: handler_reply_def Let_def paced_direct_call split: hreply.splits stage.splits)
qed

lemma paced_worker_reply:
  assumes r: "running tid s" and c: "clock s = now" and p: "paced g s"
    and g: "g \<le> RATE_LIMIT_DELAY"
  shows "paced g (worker_reply now tid it r' s)"
proof -
  from p have e: "ends_ok g s" and sp: "spaced g (trace s)"
    by (simp_all add: paced_def)
  from r c have l: "lastRequestTime s \<le> now"
    by (simp add: running_def)
  let ?o = "observe (Finished now (res it) (endpoint it) r') s"
  have spo: "spaced g (trace ?o)"
    using sp by (simp add: observe_def spaced_quiet)
  show ?thesis
  proof (cases r')
    case (Resolved st d)
    let ?s1 = "respond (res it) 200 (Json d)
        (?o\<lparr>lastRequestTime := now,
            cache := (cache ?o)(endpoint it \<mapsto> \<lparr>data = d, timestamp = now\<rparr>),
            resolved := resolved ?o @ [(res it, Some d)]\<rparr>)"
    have "ends_ok g (s\<lparr>lastRequestTime := now\<rparr>)"
      using e l by (auto elim!: ends_ok_mono)
    then have "ends_ok g (observe (Finished now (res it) (endpoint it) r') (s\<lparr>lastRequestTime := now\<rparr>))"
      by (rule ends_ok_observe) (simp add: end_ok_def Resolved)
    then have "ends_ok g ?s1"
      by (simp add: ends_ok_def observe_def respond_def)
    with spo have p1: "paced g ?s1"
      by (simp add: paced_def respond_def observe_def)
    have r1: "running tid ?s1"
      using r l c by (simp add: running_def respond_def observe_def worker_tasks_def)
    have "clock ?s1 = now"
      using c by (simp add: respond_def observe_def)
    from paced_worker_loop [OF r1 this p1 g] Resolved show ?thesis
      by (simp add: worker_reply_def Let_def)
  next
    case (Rejected m st)
    show ?thesis
    proof (cases "st = Some 429")
      case True
      let ?s1 = "suspend tid (WBackoff (now + RATE_LIMIT_DELAY)) (?o\<lparr>queue := it # queue ?o\<rparr>)"
      have "ends_ok g (suspend tid (WBackoff (now + RATE_LIMIT_DELAY)) (s\<lparr>queue := it # queue s\<rparr>))"
        using e by (auto elim!: ends_ok_mono simp: suspend_def)
      then have "ends_ok g (observe (Finished now (res it) (endpoint it) r')
          (suspend tid (WBackoff (now + RATE_LIMIT_DELAY)) (s\<lparr>queue := it # queue s\<rparr>)))"
        by (rule ends_ok_observe) (auto simp: end_ok_def Rejected True suspend_def)
      then have "ends_ok g ?s1"
        by (simp add: ends_ok_def observe_def suspend_def)
      with spo have "paced g ?s1"
        by (simp add: paced_def suspend_def observe_def)
      with Rejected True show ?thesis
        by (simp add: worker_reply_def Let_def)
    next
      case False
      let ?s1 = "(respond (res it) (status_or_500 st) (Failure ''Failed to fetch anime data'' m) ?o)
                   \<lparr>resolved := resolved ?o @ [(res it, None)]\<rparr>"
      have "ends_ok g ?o"
        using e by (rule ends_ok_quiet) (simp add: Rejected False)
      then have "ends_ok g ?s1"
        by (simp add: ends_ok_def observe_def respond_def)
      with spo have p1: "paced g ?s1"
        by (simp add: paced_def respond_def observe_def)
      have r1: "running tid ?s1"
        using r by (simp add: running_def respond_def observe_def worker_tasks_def)
      have "clock ?s1 = now"
        using c by (simp add: respond_def observe_def)
      from paced_worker_loop [OF r1 this p1 g] Rejected False show ?thesis
        by (simp add: worker_reply_def Let_def)
    qed
  qed
qed

lemma paced_step:
  assumes w: "wf s" and p: "paced g s" and st: "step now ev s = Some s'"
    and ne: "not_early (RATE_LIMIT_DELAY - g) now ev s" and g: "g \<le> RATE_LIMIT_DELAY"
  shows "paced g s'"
proof -
  from st have c: "clock s \<le> now"
    by (simp add: step_def split: if_splits)
  note wc = wf_clock [OF w c]
  note pc = paced_clock [OF p c]
  show ?thesis
  proof (cases ev)
    case (Request rid ep)
    with st c paced_proxyRequest [OF wc pc _ g, of now rid ep] show ?thesis
      by (auto simp: step_def Let_def)
  next
    case (Watch rid a q)
    with st c paced_handler_start [OF pc] show ?thesis
      by (auto simp: step_def Let_def)
  next
    case (Episodes rid a)
    with st c paced_handler_start [OF pc] show ?thesis
      by (auto simp: step_def Let_def)
  next
    case (TimerFired tid)
    from st c TimerFired obtain q where
      m: "map_of (tasks s) tid = Some q" and iw: "is_worker q"
      by (auto simp: step_def Let_def split: option.splits pc.splits if_splits)
    note t = take_worker [OF w m iw c]
    let ?s0 = "remove_task tid (s\<lparr>clock := now\<rparr>)"
    from p have e: "ends_ok g s" and sp: "spaced g (trace s)"
      by (simp_all add: paced_def)
    have only: "tid' = tid \<and> q = WBackoff due" if "(tid', WBackoff due) \<in> set (tasks s)" for tid' due
    proof -
      from that have "(tid', WBackoff due) \<in> set (worker_tasks s)"
        by (simp add: worker_tasks_def)
      with t(2) show ?thesis by simp
    qed
    show ?thesis
    proof (cases q)
      case (WGate due)
      with st c TimerFired m have s': "s' = worker_issue now tid ?s0"
        by (auto simp: step_def Let_def)
      from ne TimerFired m WGate have d: "due + g \<le> now + RATE_LIMIT_DELAY"
        by (simp add: not_early_def)
      from t(3) WGate have "lastRequestTime s + RATE_LIMIT_DELAY \<le> due"
        by simp
      with d have "lastRequestTime s + g \<le> now" by simp
      from ends_before_intro [OF e _ this c] only WGate have "ends_before g now (trace s)"
        by auto
      then have "ends_before g now (trace ?s0)"
        by (simp add: remove_task_def)
      from paced_worker_issue [OF this, of tid] sp show ?thesis
        by (simp add: s' remove_task_def)
    next
      case (WBackoff due)
      with st c TimerFired m have s': "s' = worker_loop now tid ?s0"
        by (auto simp: step_def Let_def)
      from ne TimerFired m WBackoff have d: "due + g \<le> now + RATE_LIMIT_DELAY"
        by (simp add: not_early_def)
      have "ends_ok g ?s0"
        using e
      proof (rule ends_ok_mono)
        show "\<forall>tid' due'. (tid', WBackoff due') \<in> set (tasks s) \<longrightarrow>
            (tid', WBackoff due') \<in> set (tasks ?s0) \<or> due' + g \<le> clock ?s0 + RATE_LIMIT_DELAY"
          using only WBackoff d by (auto simp: remove_task_def)
      qed (use c in \<open>simp_all add: remove_task_def\<close>)
      with sp have "paced g ?s0"
        by (simp add: paced_def remove_task_def)
      from paced_worker_loop [OF t(1) _ this g, of now] show ?thesis
        by (simp add: s' remove_task_def)
    next
      case (WUpstream it)
      with st c TimerFired m show ?thesis by (simp add: step_def Let_def)
    next
      case (Handler sg k rid tg)
      with iw show ?thesis by simp
    qed
  next
    case (UpstreamReply tid r)
    from st c UpstreamReply obtain it where
      m: "map_of (tasks s) tid = Some (WUpstream it)"
      by (auto simp: step_def Let_def split: option.splits pc.splits if_splits)
    note t = take_worker [OF w m _ c, simplified]
    let ?s0 = "remove_task tid (s\<lparr>clock := now\<rparr>)"
    from p have e: "ends_ok g s" and sp: "spaced g (trace s)"
      by (simp_all add: paced_def)
    have "ends_ok g ?s0"
      using e
    proof (rule ends_ok_mono)
      show "\<forall>tid' due'. (tid', WBackoff due') \<in> set (tasks s) \<longrightarrow>
          (tid', WBackoff due') \<in> set (tasks ?s0) \<or> due' + g \<le> clock ?s0 + RATE_LIMIT_DELAY"
      proof (intro allI impI)
        fix tid' due' assume "(tid', WBackoff due') \<in> set (tasks s)"
        then have "(tid', WBackoff due') \<in> set (worker_tasks s)"
          by (simp add: worker_tasks_def)
        with t(2) show "(tid', WBackoff due') \<in> set (tasks ?s0) \<or>
            due' + g \<le> clock ?s0 + RATE_LIMIT_DELAY"
          by simp
      qed
    qed (use c in \<open>simp_all add: remove_task_def\<close>)
    with sp have "paced g ?s0"
      by (simp add: paced_def remove_task_def)
    from paced_worker_reply [OF t(1) _ this g, of now it r] st c UpstreamReply m show ?thesis
      by (auto simp: step_def Let_def remove_task_def)
  next
    case (HandlerReply tid h)
    from st c HandlerReply obtain sg k rid tg where
      m: "map_of (tasks s) tid = Some (Handler sg k rid tg)"
      by (auto simp: step_def Let_def split: option.splits pc.splits if_splits)
    have "map_of (tasks (s\<lparr>clock := now\<rparr>)) tid = Some (Handler sg k rid tg)"
      using m by simp
    from paced_handler_reply [OF paced_remove_handler [OF wc pc this], of now tid sg k rid tg h]
      st c HandlerReply m show ?thesis
      by (auto simp: step_def Let_def)
  qed
qed

lemma paced_run:
  "wf s \<Longrightarrow> paced g s \<Longrightarrow> run evs s = Some s' \<Longrightarrow>
   timers_within (RATE_LIMIT_DELAY - g) evs s \<Longrightarrow> g \<le> RATE_LIMIT_DELAY \<Longrightarrow> paced g s'"
proof (induction evs arbitrary: s)
  case Nil
  then show ?case by simp
next
  case (Cons e evs)
  obtain now ev where e: "e = (now, ev)" by (cases e)
  with Cons.prems(3) obtain s1 where s1: "step now ev s = Some s1" and r: "run evs s1 = Some s'"
    by (auto split: option.splits)
  from Cons.prems(4) e s1 have ne: "not_early (RATE_LIMIT_DELAY - g) now ev s"
    and tw: "timers_within (RATE_LIMIT_DELAY - g) evs s1"
    by simp_all
  from Cons.IH [OF wf_step [OF Cons.prems(1) s1]
      paced_step [OF Cons.prems(1,2) s1 ne Cons.prems(5)] r tw Cons.prems(5)]
  show ?case .
qed

text \<open>
  Claim C3, as amended. Take any run in which no timer fires more than \<open>e\<close> before the
  time it is set for, \<open>e\<close> not negative. In its trace, a call of the queue worker that
  starts after a worker call ended in success or with status 429 starts at least
  \<open>RATE_LIMIT_DELAY - e\<close> after that end, whatever the endpoints; with timers that are
  never early that is \<open>RATE_LIMIT_DELAY\<close>. In particular this holds for two consecutive
  worker calls of which the first ended so.
\<close>

theorem worker_spacing:
  assumes "run evs init_state = Some s"
    and "timers_within e evs init_state" and "0 \<le> e"
  shows "spaced (RATE_LIMIT_DELAY - e) (trace s) \<and>
         (\<forall>i j t t'. i < j \<and> j < length (trace s) \<and>
            spacing_from (trace s ! i) = Some t \<and> worker_start (trace s ! j) = Some t' \<longrightarrow>
            t + (RATE_LIMIT_DELAY - e) \<le> t')"
proof -
  let ?g = "RATE_LIMIT_DELAY - e"
  have "paced ?g init_state"
    by (simp add: paced_def ends_ok_def init_state_def)
  from paced_run [OF wf_init this assms(1)] assms(2,3) have "spaced ?g (trace s)"
    by (simp add: paced_def)
  with spaced_nth show ?thesis by blast
qed

theorem worker_spacing_witness:
  "run [(10000, Request 1 ''/anime/1/full''), (10100, Request 2 ''/anime/2/full''),
        (10300, UpstreamReply 0 (Resolved 200 ''one'')), (11299, TimerFired 0)] init_state \<noteq> None \<and>
   timers_within 1 [(10000, Request 1 ''/anime/1/full''), (10100, Request 2 ''/anime/2/full''),
        (10300, UpstreamReply 0 (Resolved 200 ''one'')), (11299, TimerFired 0)] init_state \<and>
   spaced 999 (trace (the (run [(10000, Request 1 ''/anime/1/full''), (10100, Request 2 ''/anime/2/full''),
        (10300, UpstreamReply 0 (Resolved 200 ''one'')), (11299, TimerFired 0)] init_state))) \<and>
   trace (the (run [(10000, Request 1 ''/anime/1/full''), (10100, Request 2 ''/anime/2/full''),
        (10300, UpstreamReply 0 (Resolved 200 ''one'')), (11299, TimerFired 0)] init_state)) =
     [Enqueued 10000 1 ''/anime/1/full'', Started 10000 (Worker 1) (Jikan ''/anime/1/full''),
      Enqueued 10100 2 ''/anime/2/full'',
      Finished 10300 1 ''/anime/1/full'' (Resolved 200 ''one''),
      Started 11299 (Worker 2) (Jikan ''/anime/2/full'')]"
proof -
  let ?evs = "[(10000, Request 1 ''/anime/1/full''), (10100, Request 2 ''/anime/2/full''),
        (10300, UpstreamReply 0 (Resolved 200 ''one'')), (11299, TimerFired 0)]"
  let ?s = "the (run ?evs init_state)"
  have r: "run ?evs init_state = Some ?s"
    by (simp add: exec_defs)
  have w: "timers_within 1 ?evs init_state"
    by (simp add: exec_defs not_early_def)
  have t: "trace ?s =
     [Enqueued 10000 1 ''/anime/1/full'', Started 10000 (Worker 1) (Jikan ''/anime/1/full''),
      Enqueued 10100 2 ''/anime/2/full'',
      Finished 10300 1 ''/anime/1/full'' (Resolved 200 ''one''),
      Started 11299 (Worker 2) (Jikan ''/anime/2/full'')]"
    by (simp add: exec_defs)
  from worker_spacing [OF r w] have "spaced (RATE_LIMIT_DELAY - 1) (trace ?s)"
    by simp
  then have s: "spaced 999 (trace ?s)"
    by (simp only: RATE_LIMIT_DELAY_def) simp
  from r have "run ?evs init_state \<noteq> None"
    by (metis option.distinct(1))
  with w s t show ?thesis
    by (intro conjI)
qed

text \<open>
  Claim C3 as stated fails. In the first run the call for \<open>/anime/1/full\<close> ends with
  status 500 at time 10300; in the same step the worker starts the call for
  \<open>/anime/2/full\<close>, and a request to \<open>/api/watch/7/1\<close> at that time starts a third call
  at once. In the second run the call ends in success at 10300 and the gate timer fires
  at 11299: the next call starts 999 ms after the end.
\<close>

theorem spacing_not_kept:
  "run [(10000, Request 1 ''/anime/1/full''), (10010, Request 2 ''/anime/2/full''),
        (10300, UpstreamReply 0 (Rejected ''Request failed with status code 500'' (Some 500))),
        (10300, Watch 3 ''7'' (Some 1))] init_state \<noteq> None \<and>
   trace (the (run [(10000, Request 1 ''/anime/1/full''), (10010, Request 2 ''/anime/2/full''),
        (10300, UpstreamReply 0 (Rejected ''Request failed with status code 500'' (Some 500))),
        (10300, Watch 3 ''7'' (Some 1))] init_state)) =
     [Enqueued 10000 1 ''/anime/1/full'', Started 10000 (Worker 1) (Jikan ''/anime/1/full''),
      Enqueued 10010 2 ''/anime/2/full'',
      Finished 10300 1 ''/anime/1/full'' (Rejected ''Request failed with status code 500'' (Some 500)),
      Started 10300 (Worker 2) (Jikan ''/anime/2/full''),
      Started 10300 (Direct 3) (Jikan ''/anime/7/full'')] \<and>
   run [(10000, Request 1 ''/anime/1/full''), (10100, Request 2 ''/anime/2/full''),
        (10300, UpstreamReply 0 (Resolved 200 ''one'')), (11299, TimerFired 0)] init_state \<noteq> None \<and>
   trace (the (run [(10000, Request 1 ''/anime/1/full''), (10100, Request 2 ''/anime/2/full''),
        (10300, UpstreamReply 0 (Resolved 200 ''one'')), (11299, TimerFired 0)] init_state)) =
     [Enqueued 10000 1 ''/anime/1/full'', Started 10000 (Worker 1) (Jikan ''/anime/1/full''),
      Enqueued 10100 2 ''/anime/2/full'',
      Finished 10300 1 ''/anime/1/full'' (Resolved 200 ''one''),
      Started 11299 (Worker 2) (Jikan ''/anime/2/full'')]"
  by (simp add: exec_defs)


end
